theory Spec2Isabelle
  imports Main
begin

section \<open>prprocessor: shallow embedding of \<^verbatim>\<open>prprocessor/__main__.py\<close>\<close>

text \<open>
  Strings are \<^typ>\<open>string\<close>; a character stands for a code point below 256. Python
  exceptions are values of \<open>exn\<close>; a function that can raise returns \<open>exn + 'a\<close> with
  \<open>Inl\<close> for the exception.
\<close>

datatype exn =
    UnconfiguredRepository
  | IndexError
  | AttributeError
  | ValueError
  | UnboundLocalError
  | UnknownProject
  | BoundaryError string

subsection \<open>Configuration\<close>

text \<open>
  \<^verbatim>\<open>WHITELISTED_ORGANIZATIONS = ('theforeman', 'Katello')\<close>
\<close>

definition WHITELISTED_ORGANIZATIONS :: "string list" where
  "WHITELISTED_ORGANIZATIONS = [''theforeman'', ''Katello'']"

text \<open>
  The dataclass \<^verbatim>\<open>Config\<close>. Its field \<^verbatim>\<open>refs\<close> is named \<open>config_refs\<close> here, since
  \<^verbatim>\<open>Commit\<close> has a field \<^verbatim>\<open>refs\<close> too.
\<close>

record Config =
  project :: "string option"
  required :: bool
  config_refs :: "string set"
  version_prefix :: "string option"

text \<open>\<^verbatim>\<open>Config()\<close>: every field at its default.\<close>

definition default_Config :: Config where
  "default_Config =
     \<lparr>project = None, required = False, config_refs = {}, version_prefix = None\<rparr>"

text \<open>
  \<^verbatim>\<open>repository.split('/', 1)\<close>: the text before the first \<^verbatim>\<open>/\<close> and the text after
  it, or \<open>None\<close> when there is no \<^verbatim>\<open>/\<close> (Python then returns a list of one element).
\<close>

fun split_slash :: "string \<Rightarrow> (string \<times> string) option" where
  "split_slash [] = None"
| "split_slash (c # cs) =
     (if c = CHR ''/'' then Some ([], cs)
      else (case split_slash cs of
              None \<Rightarrow> None
            | Some (a, b) \<Rightarrow> Some (c # a, b)))"

text \<open>
  \<^verbatim>\<open>get_config\<close>. \<open>CONFIG\<close> is the table read from \<^verbatim>\<open>config/repos.yaml\<close> at import time; the
  file is not part of the sources, so the table is a parameter. Unpacking the result of
  \<^verbatim>\<open>split\<close> into two names raises \<^verbatim>\<open>ValueError\<close> when the identifier has no \<^verbatim>\<open>/\<close>.
\<close>

definition get_config :: "(string \<rightharpoonup> Config) \<Rightarrow> string \<Rightarrow> exn + Config" where
  "get_config CONFIG repository =
     (case CONFIG repository of
        Some config \<Rightarrow> Inr config
      | None \<Rightarrow>
          (case split_slash repository of
             None \<Rightarrow> Inl ValueError
           | Some (user, _) \<Rightarrow>
               if user \<notin> set WHITELISTED_ORGANIZATIONS then Inl UnconfiguredRepository
               else Inr default_Config))"

subsection \<open>Strings\<close>

text \<open>
  The names, links and titles that the program only compares and concatenates are
  values of \<open>string\<close>.
\<close>

definition startswith :: "string \<Rightarrow> string \<Rightarrow> bool" where
  "startswith s p = (take (length p) s = p)"

definition endswith :: "string \<Rightarrow> string \<Rightarrow> bool" where
  "endswith s p = (length p \<le> length s \<and> drop (length s - length p) s = p)"

definition NL :: string where
  "NL = [CHR 0x0A]"

text \<open>\<^verbatim>\<open>sep.join(xs)\<close>\<close>

fun join :: "string \<Rightarrow> string list \<Rightarrow> string" where
  "join sp [] = []"
| "join sp [x] = x"
| "join sp (x # y # ys) = x @ sp @ join sp (y # ys)"

text \<open>\<^verbatim>\<open>str(n)\<close> of an integer, as an f-string prints it.\<close>

fun str_nat :: "nat \<Rightarrow> string" where
  "str_nat n =
     (if n < 10 then [char_of (48 + n)]
      else str_nat (n div 10) @ [char_of (48 + n mod 10)])"

definition str_int :: "int \<Rightarrow> string" where
  "str_int i = (if i < 0 then ''-'' @ str_nat (nat (- i)) else str_nat (nat i))"

subsection \<open>The text of a commit message\<close>

text \<open>
  A commit message is a \<^verbatim>\<open>str\<close>, a sequence of Unicode code points, and the program
  reads its characters: a message is the list of its code points (the integers that
  \<^verbatim>\<open>ord\<close> gives), and \<open>ustr\<close> gives the code points of a literal.
\<close>

type_synonym ustring = "int list"

definition ustr :: "string \<Rightarrow> ustring" where
  "ustr s = map of_char s"

text \<open>
  The code points that have a decimal digit value (category Nd): they are what \<^verbatim>\<open>\d\<close>
  matches in a pattern on \<^verbatim>\<open>str\<close> and what \<^verbatim>\<open>int\<close> reads. They come in runs of ten, from
  the digit zero to the digit nine of a script; \<open>decimal_zeros\<close> lists the zeros (Unicode
  14.0, the database of Python 3.11).
\<close>

definition decimal_zeros :: "int list" where
  "decimal_zeros =
     [0x30, 0x660, 0x6F0, 0x7C0, 0x966, 0x9E6, 0xA66, 0xAE6, 0xB66, 0xBE6,
      0xC66, 0xCE6, 0xD66, 0xDE6, 0xE50, 0xED0, 0xF20, 0x1040, 0x1090, 0x17E0,
      0x1810, 0x1946, 0x19D0, 0x1A80, 0x1A90, 0x1B50, 0x1BB0, 0x1C40, 0x1C50, 0xA620,
      0xA8D0, 0xA900, 0xA9D0, 0xA9F0, 0xAA50, 0xABF0, 0xFF10, 0x104A0, 0x10D30, 0x11066,
      0x110F0, 0x11136, 0x111D0, 0x112F0, 0x11450, 0x114D0, 0x11650, 0x116C0, 0x11730, 0x118E0,
      0x11950, 0x11C50, 0x11D50, 0x11DA0, 0x16A60, 0x16AC0, 0x16B50, 0x1D7CE, 0x1D7D8, 0x1D7E2,
      0x1D7EC, 0x1D7F6, 0x1E140, 0x1E2F0, 0x1E950, 0x1FBF0]"

definition decimal_value :: "int \<Rightarrow> int option" where
  "decimal_value c =
     map_option (\<lambda>z. c - z) (find (\<lambda>z. z \<le> c \<and> c < z + 10) decimal_zeros)"

definition is_decimal :: "int \<Rightarrow> bool" where
  "is_decimal c = (decimal_value c \<noteq> None)"

text \<open>
  \<^verbatim>\<open>int(s)\<close> on a string of decimal digits, which is all that the program passes to it
  (signs, blanks and underscores are not read here: every other string raises). It
  raises \<^verbatim>\<open>ValueError\<close> when the string has more digits than the interpreter's limit,
  4300 unless configured otherwise.
\<close>

definition INT_MAX_STR_DIGITS :: nat where
  "INT_MAX_STR_DIGITS = 4300"

definition digits_value :: "ustring \<Rightarrow> int" where
  "digits_value d =
     foldl (\<lambda>a c. 10 * a + (case decimal_value c of None \<Rightarrow> 0 | Some v \<Rightarrow> v)) 0 d"

definition int_of_str :: "ustring \<Rightarrow> exn + int" where
  "int_of_str s =
     (if s = [] \<or> \<not> list_all is_decimal s \<or> INT_MAX_STR_DIGITS < length s then Inl ValueError
      else Inr (digits_value s))"

text \<open>
  \<^verbatim>\<open>str.lower()\<close> on the characters that the action word of a matched summary can hold:
  a capital letter \<^verbatim>\<open>A\<close> to \<^verbatim>\<open>Z\<close> becomes the small one, U+0130 (capital I with dot above)
  becomes \<^verbatim>\<open>i\<close> followed by U+0307, U+212A (the Kelvin sign) becomes \<^verbatim>\<open>k\<close>; U+0131 (dotless
  i), U+017F (long s) and the small letters are kept. The lower-casing of the other
  capital letters of Unicode, which the pattern does not admit there, is not modelled:
  they are kept.
\<close>

definition lower_code :: "int \<Rightarrow> int list" where
  "lower_code c =
     (if 0x41 \<le> c \<and> c \<le> 0x5A then [c + 0x20]
      else if c = 0x130 then [0x69, 0x307]
      else if c = 0x212A then [0x6B]
      else [c])"

definition lower :: "ustring \<Rightarrow> ustring" where
  "lower s = concat (map lower_code s)"

text \<open>
  \<^verbatim>\<open>str.splitlines()\<close>: the line boundaries are LF, VT, FF, CR, FS, GS, RS, NEL, LINE
  SEPARATOR and PARAGRAPH SEPARATOR; CR LF counts as one boundary; no empty last line
  is produced.
\<close>

definition is_linebreak :: "int \<Rightarrow> bool" where
  "is_linebreak c =
     (c \<in> set [0x0A, 0x0B, 0x0C, 0x0D, 0x1C, 0x1D, 0x1E, 0x85, 0x2028, 0x2029])"

fun splitlines_acc :: "ustring \<Rightarrow> ustring \<Rightarrow> ustring list" where
  "splitlines_acc acc [] = (if acc = [] then [] else [rev acc])"
| "splitlines_acc acc (c # cs) =
     (if is_linebreak c then
        rev acc # splitlines_acc []
          (if c = 0x0D \<and> cs \<noteq> [] \<and> hd cs = 0x0A then tl cs else cs)
      else splitlines_acc (c # acc) cs)"

definition splitlines :: "ustring \<Rightarrow> ustring list" where
  "splitlines s = splitlines_acc [] s"

subsection \<open>Regular expressions: the part of \<^verbatim>\<open>re\<close> the program uses\<close>

text \<open>
  A pattern is a term of \<open>regex\<close>; its literals are ASCII characters, as in the two
  patterns of the program. \<open>rx_match\<close> is a backtracking matcher: from a state
  (position, remaining input, captures, the latest capture first) it returns every
  way to match, in the order in which \<^verbatim>\<open>re\<close> tries them (the left alternative first,
  greedy repetition first), so the head of the list is the match \<^verbatim>\<open>re\<close> reports. A
  repetition gives up an iteration that consumes nothing; its fuel is the length of the
  remaining input, which iterations that consume something cannot exhaust.

  Under \<^verbatim>\<open>re.IGNORECASE\<close> a pattern on \<^verbatim>\<open>str\<close> compares a literal letter with a character
  after lower-casing both, and accepts besides the code points that Unicode folds to
  the letter: for an ASCII literal the characters accepted are the letter in either
  case and, for \<^verbatim>\<open>i\<close>, U+0130 and U+0131, for \<^verbatim>\<open>s\<close>, U+017F, for \<^verbatim>\<open>k\<close>, U+212A. \<open>re_fold\<close>
  sends each of these characters to the small ASCII letter. \<^verbatim>\<open>\d\<close> matches a decimal digit
  of any script, \<^verbatim>\<open>.\<close> every character but the line feed.
\<close>

datatype regex =
    Eps
  | Lit char
  | Digit
  | AnyChar
  | StartA
  | EndZ
  | Cat regex regex
  | Alt regex regex
  | Opt regex
  | Star regex
  | Grp string regex

type_synonym mstate = "nat \<times> ustring \<times> (string \<times> ustring) list"

definition step_char :: "(int \<Rightarrow> bool) \<Rightarrow> mstate \<Rightarrow> mstate list" where
  "step_char P st =
     (case st of (pos, s, caps) \<Rightarrow>
        (case s of [] \<Rightarrow> [] | c # cs \<Rightarrow> if P c then [(Suc pos, cs, caps)] else []))"

definition re_fold :: "int \<Rightarrow> int" where
  "re_fold c =
     (if 0x41 \<le> c \<and> c \<le> 0x5A then c + 0x20
      else if c = 0x130 \<or> c = 0x131 then 0x69
      else if c = 0x17F then 0x73
      else if c = 0x212A then 0x6B
      else c)"

definition lit_eq :: "bool \<Rightarrow> char \<Rightarrow> int \<Rightarrow> bool" where
  "lit_eq ic p c = (if ic then re_fold c = re_fold (of_char p) else c = of_char p)"

primrec rx_star :: "nat \<Rightarrow> (mstate \<Rightarrow> mstate list) \<Rightarrow> mstate \<Rightarrow> mstate list" where
  "rx_star 0 f st = [st]"
| "rx_star (Suc n) f st =
     List.bind (filter (\<lambda>st'. fst st < fst st') (f st)) (rx_star n f) @ [st]"

primrec rx_match :: "bool \<Rightarrow> regex \<Rightarrow> mstate \<Rightarrow> mstate list" where
  "rx_match ic Eps st = [st]"
| "rx_match ic (Lit p) st = step_char (lit_eq ic p) st"
| "rx_match ic Digit st = step_char is_decimal st"
| "rx_match ic AnyChar st = step_char (\<lambda>c. c \<noteq> 0x0A) st"
| "rx_match ic StartA st = (if fst st = 0 then [st] else [])"
| "rx_match ic EndZ st = (if fst (snd st) = [] then [st] else [])"
| "rx_match ic (Cat r1 r2) st = List.bind (rx_match ic r1 st) (rx_match ic r2)"
| "rx_match ic (Alt r1 r2) st = rx_match ic r1 st @ rx_match ic r2 st"
| "rx_match ic (Opt r) st = rx_match ic r st @ [st]"
| "rx_match ic (Star r) st = rx_star (length (fst (snd st))) (rx_match ic r) st"
| "rx_match ic (Grp name r) st =
     map (\<lambda>(pos', s', caps'). (pos', s', (name, take (pos' - fst st) (fst (snd st))) # caps'))
       (rx_match ic r st)"

text \<open>\<^verbatim>\<open>r+\<close> and a literal string.\<close>

definition Plus :: "regex \<Rightarrow> regex" where
  "Plus r = Cat r (Star r)"

primrec Str :: "string \<Rightarrow> regex" where
  "Str [] = Eps"
| "Str (c # cs) = Cat (Lit c) (Str cs)"

text \<open>
  \<^verbatim>\<open>pattern.match(s)\<close>: the captures of the first match at the start of \<open>s\<close>, or \<open>None\<close>.
  \<^verbatim>\<open>m.group(name)\<close> reads a capture.
\<close>

definition re_match :: "bool \<Rightarrow> regex \<Rightarrow> ustring \<Rightarrow> (string \<times> ustring) list option" where
  "re_match ic r s =
     (case rx_match ic r (0, s, []) of [] \<Rightarrow> None | (_, _, caps) # _ \<Rightarrow> Some caps)"

definition group :: "(string \<times> ustring) list \<Rightarrow> string \<Rightarrow> ustring" where
  "group caps name = (case map_of caps name of None \<Rightarrow> [] | Some t \<Rightarrow> t)"

text \<open>
  \<^verbatim>\<open>pattern.findall(s)\<close> for a pattern with one group: the text of group 1 of every match,
  scanning from the left; after a match the scan goes on where the match ended, and one
  character further where nothing (or nothing of positive length) matched.
\<close>

function findall_from :: "bool \<Rightarrow> regex \<Rightarrow> nat \<Rightarrow> ustring \<Rightarrow> ustring list" where
  "findall_from ic r pos s =
     (case rx_match ic r (pos, s, []) of
        [] \<Rightarrow> (case s of [] \<Rightarrow> [] | _ # cs \<Rightarrow> findall_from ic r (Suc pos) cs)
      | (pos', s', caps) # _ \<Rightarrow>
          group caps ''1'' #
            (if length s' < length s then findall_from ic r pos' s'
             else (case s of [] \<Rightarrow> [] | _ # cs \<Rightarrow> findall_from ic r (Suc pos) cs)))"
  by pat_completeness auto
termination
  by (relation "measure (\<lambda>(ic, r, pos, s). length s)") auto

declare findall_from.simps [simp del]

definition findall :: "bool \<Rightarrow> regex \<Rightarrow> ustring \<Rightarrow> ustring list" where
  "findall ic r s = findall_from ic r 0 s"

subsection \<open>Commits\<close>

text \<open>
  \<^verbatim>\<open>COMMIT_VALID_SUMMARY_REGEX\<close>, compiled with \<^verbatim>\<open>re.IGNORECASE\<close>:
  \<^verbatim>\<open>\A(?P<action>fixes|refs) (?P<issues>#(\d+)(, ?#(\d+))*)(:| -) .*\Z\<close>.
  The unnamed groups carry their numbers as names.
\<close>

definition COMMIT_VALID_SUMMARY_REGEX :: regex where
  "COMMIT_VALID_SUMMARY_REGEX =
     Cat StartA
    (Cat (Grp ''action'' (Alt (Str ''fixes'') (Str ''refs'')))
    (Cat (Lit CHR '' '')
    (Cat (Grp ''issues''
            (Cat (Lit CHR ''#'')
            (Cat (Grp ''3'' (Plus Digit))
                 (Star (Grp ''4'' (Cat (Lit CHR '','') (Cat (Opt (Lit CHR '' ''))
                            (Cat (Lit CHR ''#'') (Grp ''5'' (Plus Digit))))))))))
    (Cat (Grp ''6'' (Alt (Lit CHR '':'') (Str '' -'')))
    (Cat (Lit CHR '' '')
    (Cat (Star AnyChar) EndZ))))))"

text \<open>\<^verbatim>\<open>COMMIT_ISSUES_REGEX = re.compile(r'#(\d+)')\<close>\<close>

definition COMMIT_ISSUES_REGEX :: regex where
  "COMMIT_ISSUES_REGEX = Cat (Lit CHR ''#'') (Grp ''1'' (Plus Digit))"

record Commit =
  sha :: string
  message :: ustring
  "fixes" :: "int set"
  refs :: "int set"

text \<open>
  The property \<^verbatim>\<open>Commit.subject\<close>: \<^verbatim>\<open>self.message.splitlines()[0]\<close>, which raises
  \<^verbatim>\<open>IndexError\<close> when the message has no line.
\<close>

definition subject :: "Commit \<Rightarrow> exn + ustring" where
  "subject commit =
     (case splitlines (message commit) of [] \<Rightarrow> Inl IndexError | l # _ \<Rightarrow> Inr l)"

text \<open>\<^verbatim>\<open>int(issue)\<close> for the strings of a list in turn; the first that raises ends it.\<close>

fun ints_of :: "ustring list \<Rightarrow> exn + int list" where
  "ints_of [] = Inr []"
| "ints_of (t # ts) =
     (case int_of_str t of
        Inl e \<Rightarrow> Inl e
      | Inr i \<Rightarrow> (case ints_of ts of Inl e \<Rightarrow> Inl e | Inr js \<Rightarrow> Inr (i # js)))"

text \<open>
  The body of the loop of \<^verbatim>\<open>get_commits_from_pull_request\<close> for one item: build the
  commit and match its subject. On a match \<^verbatim>\<open>getattr\<close> selects the set by the
  lower-cased action word, raising \<^verbatim>\<open>AttributeError\<close> when the commit has no such
  attribute; then every issue number of the matched list is read by \<^verbatim>\<open>int\<close> and added
  to that set.
\<close>

definition parse_commit :: "string \<Rightarrow> ustring \<Rightarrow> exn + Commit" where
  "parse_commit item_sha item_message =
     (let commit = \<lparr>sha = item_sha, message = item_message, fixes = {}, refs = {}\<rparr> in
      case subject commit of
        Inl e \<Rightarrow> Inl e
      | Inr subj \<Rightarrow>
          (case re_match True COMMIT_VALID_SUMMARY_REGEX subj of
             None \<Rightarrow> Inr commit
           | Some caps \<Rightarrow>
               (let action = lower (group caps ''action'') in
                if action \<noteq> ustr ''fixes'' \<and> action \<noteq> ustr ''refs'' then Inl AttributeError
                else
                  (case ints_of (findall False COMMIT_ISSUES_REGEX (group caps ''issues'')) of
                     Inl e \<Rightarrow> Inl e
                   | Inr ids \<Rightarrow>
                       if action = ustr ''fixes''
                       then Inr (commit\<lparr>fixes := fixes commit \<union> set ids\<rparr>)
                       else Inr (commit\<lparr>refs := refs commit \<union> set ids\<rparr>)))))"

subsection \<open>Data of the two boundaries\<close>

text \<open>
  The fields of the pull-request payload that the program reads, flattened:
  \<^verbatim>\<open>pull_request['head']['ref']\<close> is \<open>pr_head_ref\<close>, and so on.
\<close>

record pull_request =
  pr_title :: string
  pr_commits_url :: string
  pr_head_ref :: string
  pr_head_sha :: string
  pr_base_repo_url :: string
  pr_base_repo_full_name :: string
  pr_base_ref :: string
  pr_html_url :: string
  pr_user_login :: string
  pr_merged :: bool
  pr_number :: int

text \<open>
  A check run as the platform returns it: \<^verbatim>\<open>check_run['url']\<close>,
  \<^verbatim>\<open>check_run['status']\<close> and \<^verbatim>\<open>check_run['output'].get('text')\<close>.
\<close>

record check_run =
  cr_url :: string
  cr_status :: string
  cr_output_text :: "string option"

text \<open>An item of the list behind \<^verbatim>\<open>commits_url\<close>: \<^verbatim>\<open>item['sha']\<close>, \<^verbatim>\<open>item['commit']['message']\<close>.\<close>

record commit_item =
  item_sha :: string
  item_message :: ustring

record Project =
  project_id :: int
  project_identifier :: string
  project_name :: string
  project_url :: string

text \<open>
  A tracker issue. \<open>issue_pr_field\<close> is \<^verbatim>\<open>issue.custom_fields.get(Field.PULL_REQUEST)\<close>
  (the field's id and its value, a list of URLs), \<open>None\<close> when the issue has no such
  field; \<open>issue_assigned_to\<close> is \<open>None\<close> when \<^verbatim>\<open>hasattr(issue, 'assigned_to')\<close> is false.
\<close>

record Issue =
  issue_id :: int
  issue_subject :: string
  issue_url :: string
  issue_project :: Project
  issue_status_id :: int
  issue_pr_field :: "(int \<times> string list) option"
  issue_assigned_to :: "int option"

text \<open>\<^verbatim>\<open>IssueValidation\<close>, the result of \<^verbatim>\<open>verify_issues\<close>.\<close>

record IssueValidation =
  valid_issues :: "Issue list"
  invalid_project_issues :: "Issue list"
  missing_issue_ids :: "int list"
  validation_project :: Project

text \<open>
  The keyword arguments of \<^verbatim>\<open>issue.save\<close>; \<open>None\<close> is a key that the dictionary
  \<^verbatim>\<open>updates\<close> does not have.
\<close>

record updates =
  custom_fields :: "(int \<times> string list) list option"
  assigned_to_id :: "int option"
  status_id :: "int option"

definition no_updates :: updates where
  "no_updates = \<lparr>custom_fields = None, assigned_to_id = None, status_id = None\<rparr>"

text \<open>
  The enumeration \<^verbatim>\<open>Status\<close> of \<^verbatim>\<open>prprocessor.redmine\<close> is not part of the sources; it
  is a parameter: the value of \<^verbatim>\<open>Status.READY_FOR_TESTING\<close>, the values of the other
  members, and the two predicates on values.
\<close>

record Status_enum =
  READY_FOR_TESTING :: int
  other_values :: "int list"
  is_rejected :: "int \<Rightarrow> bool"
  is_closed :: "int \<Rightarrow> bool"

text \<open>\<^verbatim>\<open>Status(value)\<close> raises \<^verbatim>\<open>ValueError\<close> for a value that no member has.\<close>

definition Status :: "Status_enum \<Rightarrow> int \<Rightarrow> exn + int" where
  "Status ST v =
     (if v \<in> set (READY_FOR_TESTING ST # other_values ST) then Inr v else Inl ValueError)"

record check_output =
  output_title :: string
  output_summary :: string
  output_text :: "string option"

text \<open>
  The two payloads the program writes to a check run: the one of
  \<^verbatim>\<open>set_check_in_progress\<close> (name, head branch, head sha, started at; status
  \<^verbatim>\<open>in_progress\<close>) and the final one (head branch, head sha, completed at, conclusion,
  output; status \<^verbatim>\<open>completed\<close>).
\<close>

datatype check_data =
    In_progress string string string string
  | Completed string string string string check_output

fun data_status :: "check_data \<Rightarrow> string" where
  "data_status (In_progress _ _ _ _) = ''in_progress''"
| "data_status (Completed _ _ _ _ _) = ''completed''"

subsection \<open>Calls across the boundaries\<close>

text \<open>
  Every call to the Hosting Platform or to the Tracker is recorded as an event, in
  order. \<open>LogException\<close> is a call of \<^verbatim>\<open>logger.exception\<close>; the other logging calls are not
  recorded.
\<close>

datatype event =
    ApiGetitem string
  | ApiPost string check_data
  | ApiPatch string check_data
  | Sleep nat
  | LogException string
  | VerifyIssues Config "int set"
  | IssueSave int updates
  | ProjectGet string
  | GetLatestOpenVersion Project string
  | GetIssues "int set"
  | SetFixedInVersion int string

text \<open>
  What the outside answers is a parameter: for a type \<open>'w\<close> of states of the outside
  world, each call maps the state before to its result (\<open>Inl\<close> when the call raises) and
  the state after. \<open>verify_issues\<close>, \<open>get_latest_open_version\<close>, \<open>get_issues\<close> and
  \<open>set_fixed_in_version\<close> are the functions of \<^verbatim>\<open>prprocessor.redmine\<close>, which is not part
  of the sources; a version is named by its name.
\<close>

record 'w boundary =
  now :: "'w \<Rightarrow> string"
  getitem :: "string \<Rightarrow> 'w \<Rightarrow> (exn + commit_item list) \<times> 'w"
  post :: "string \<Rightarrow> check_data \<Rightarrow> 'w \<Rightarrow> (exn + check_run) \<times> 'w"
  patch :: "string \<Rightarrow> check_data \<Rightarrow> 'w \<Rightarrow> (exn + check_run) \<times> 'w"
  sleep :: "nat \<Rightarrow> 'w \<Rightarrow> 'w"
  verify_issues :: "Config \<Rightarrow> int set \<Rightarrow> 'w \<Rightarrow> (exn + IssueValidation) \<times> 'w"
  save :: "Issue \<Rightarrow> updates \<Rightarrow> 'w \<Rightarrow> (exn + unit) \<times> 'w"
  project_get :: "string \<Rightarrow> 'w \<Rightarrow> (exn + Project) \<times> 'w"
  get_latest_open_version :: "Project \<Rightarrow> string \<Rightarrow> 'w \<Rightarrow> (exn + string option) \<times> 'w"
  get_issues :: "int set \<Rightarrow> 'w \<Rightarrow> (exn + Issue list) \<times> 'w"
  set_fixed_in_version :: "Issue \<Rightarrow> string \<Rightarrow> 'w \<Rightarrow> (exn + unit) \<times> 'w"

text \<open>The state of a run: the outside world and the calls made so far.\<close>

type_synonym 'w state = "'w \<times> event list"

definition call :: "event \<Rightarrow> ('w \<Rightarrow> 'a \<times> 'w) \<Rightarrow> 'w state \<Rightarrow> 'a \<times> 'w state" where
  "call e f s = (case f (fst s) of (r, w') \<Rightarrow> (r, (w', snd s @ [e])))"

definition log_exception :: "string \<Rightarrow> 'w state \<Rightarrow> 'w state" where
  "log_exception msg s = (fst s, snd s @ [LogException msg])"

definition do_sleep :: "'w boundary \<Rightarrow> nat \<Rightarrow> 'w state \<Rightarrow> 'w state" where
  "do_sleep B n s = (sleep B n (fst s), snd s @ [Sleep n])"

subsection \<open>Fetching and parsing the commits\<close>

text \<open>The items in order; the first item that raises ends the iteration.\<close>

fun parse_items :: "commit_item list \<Rightarrow> exn + Commit list" where
  "parse_items [] = Inr []"
| "parse_items (item # items) =
     (case parse_commit (item_sha item) (item_message item) of
        Inl e \<Rightarrow> Inl e
      | Inr commit \<Rightarrow>
          (case parse_items items of Inl e \<Rightarrow> Inl e | Inr commits \<Rightarrow> Inr (commit # commits)))"

definition get_commits_from_pull_request ::
  "'w boundary \<Rightarrow> pull_request \<Rightarrow> 'w state \<Rightarrow> (exn + Commit list) \<times> 'w state" where
  "get_commits_from_pull_request B pull_request s =
     (case call (ApiGetitem (pr_commits_url pull_request))
             (getitem B (pr_commits_url pull_request)) s of
        (Inl e, s1) \<Rightarrow> (Inl e, s1)
      | (Inr items, s1) \<Rightarrow> (parse_items items, s1))"

subsection \<open>The check run\<close>

definition CHECK_NAME :: string where
  "CHECK_NAME = ''Redmine issues''"

text \<open>
  \<^verbatim>\<open>set_check_in_progress\<close>. \<open>None\<close> is a \<^verbatim>\<open>check_run\<close> that is \<^verbatim>\<open>None\<close>. After a patch the
  handle that was passed in is returned, not the answer to the patch.
\<close>

definition set_check_in_progress ::
  "'w boundary \<Rightarrow> pull_request \<Rightarrow> check_run option \<Rightarrow> 'w state \<Rightarrow> (exn + check_run) \<times> 'w state" where
  "set_check_in_progress B pull_request check_run s =
     (let data = In_progress CHECK_NAME (pr_head_ref pull_request) (pr_head_sha pull_request)
                   (now B (fst s))
      in case check_run of
           Some cr \<Rightarrow>
             if cr_status cr \<noteq> ''in_progress'' then
               (case call (ApiPatch (cr_url cr) data) (patch B (cr_url cr) data) s of
                  (Inl e, s1) \<Rightarrow> (Inl e, s1)
                | (Inr _, s1) \<Rightarrow> (Inr cr, s1))
             else (Inr cr, s)
         | None \<Rightarrow>
             (let url = pr_base_repo_url pull_request @ ''/check-runs''
              in call (ApiPost url data) (post B url data) s))"

definition format_invalid_commit_messages :: "Commit list \<Rightarrow> string list" where
  "format_invalid_commit_messages commits =
     map (\<lambda>commit. sha commit @ '' must be in the format `fixes #redmine - brief description`'')
       commits"

definition issue_link :: "Issue \<Rightarrow> string" where
  "issue_link issue =
     ''[#'' @ str_int (issue_id issue) @ '': '' @ issue_subject issue @ ''](''
       @ issue_url issue @ '')''"

definition format_redmine_issues :: "Issue list \<Rightarrow> string list" where
  "format_redmine_issues issues = map issue_link (sort_key issue_id issues)"

definition format_details :: "Issue list \<Rightarrow> Project \<Rightarrow> string" where
  "format_details invalid_issues correct_project =
     join NL
       (map (\<lambda>issue.
               ''### '' @ issue_link issue @ NL @ NL
               @ ''* check [#'' @ str_int (issue_id issue) @ ''](''  @ issue_url issue
               @ '') is the intended issue'' @ NL
               @ ''* move [ticket #'' @ str_int (issue_id issue) @ ''](''  @ issue_url issue
               @ '') from '' @ project_name (issue_project issue) @ '' to the ''
               @ project_name correct_project @ '' project'' @ NL
               @ ''* or file a new ticket in the ['' @ project_name correct_project
               @ '' project]('' @ project_url correct_project @ ''/issues/new)'' @ NL)
          invalid_issues)"

text \<open>\<^verbatim>\<open>summarize\<close>; the dictionary \<^verbatim>\<open>summary\<close> is the list of its items in insertion order.\<close>

definition summarize :: "(string \<times> string list) list \<Rightarrow> bool \<Rightarrow> string list" where
  "summarize summary show_headers =
     concat (map (\<lambda>(header, lines).
                    if lines \<noteq> [] then
                      (if show_headers then [''### '' @ header] else [])
                      @ map (\<lambda>line. ''* '' @ line) lines
                    else [])
               summary)"

subsection \<open>Validation of a pull request\<close>

definition get_issues_from_pr ::
  "'w boundary \<Rightarrow> (string \<rightharpoonup> Config) \<Rightarrow> pull_request \<Rightarrow> 'w state
     \<Rightarrow> (exn + IssueValidation \<times> Commit list) \<times> 'w state" where
  "get_issues_from_pr B CONFIG pull_request s =
     (case get_config CONFIG (pr_base_repo_full_name pull_request) of
        Inl e \<Rightarrow> (Inl e, s)
      | Inr config \<Rightarrow>
          (case get_commits_from_pull_request B pull_request s of
             (Inl e, s1) \<Rightarrow> (Inl e, s1)
           | (Inr commits, s1) \<Rightarrow>
               (let issue_ids = foldl (\<lambda>ids commit. ids \<union> fixes commit \<union> refs commit) {} commits;
                    invalid_commits =
                      filter (\<lambda>commit. required config \<and> fixes commit = {} \<and> refs commit = {})
                        commits
                in case call (VerifyIssues config issue_ids) (verify_issues B config issue_ids) s1 of
                     (Inl e, s2) \<Rightarrow> (Inl e, s2)
                   | (Inr issue_results, s2) \<Rightarrow> (Inr (issue_results, invalid_commits), s2))))"

text \<open>
  The loop \<^verbatim>\<open>for attempt in range(1, attempts + 1)\<close> of \<^verbatim>\<open>run_pull_request_check\<close>, over
  the attempts still to make. The bare \<^verbatim>\<open>except:\<close> catches every exception of the body;
  on the last attempt it raises it again, before that it logs and sleeps. \<open>Inr None\<close> is
  a loop that ends with no \<^verbatim>\<open>break\<close>, which an empty range alone gives.
\<close>

fun attempt_loop ::
  "'w boundary \<Rightarrow> (string \<rightharpoonup> Config) \<Rightarrow> pull_request \<Rightarrow> nat \<Rightarrow> nat list \<Rightarrow> 'w state
     \<Rightarrow> (exn + (IssueValidation \<times> Commit list) option) \<times> 'w state" where
  "attempt_loop B CONFIG pull_request attempts [] s = (Inr None, s)"
| "attempt_loop B CONFIG pull_request attempts (attempt # rest) s =
     (case get_issues_from_pr B CONFIG pull_request s of
        (Inr r, s1) \<Rightarrow> (Inr (Some r), s1)
      | (Inl e, s1) \<Rightarrow>
          if attempt = attempts then (Inl e, s1)
          else attempt_loop B CONFIG pull_request attempts rest
                 (do_sleep B attempt
                    (log_exception ''Failure during validation of PR (attempt %s)'' s1)))"

definition pr_is_cherry_pick :: "pull_request \<Rightarrow> bool" where
  "pr_is_cherry_pick pull_request =
     (startswith (pr_title pull_request) ''CP''
      \<or> startswith (pr_title pull_request) ''[CP]''
      \<or> startswith (pr_title pull_request) ''Cherry picks for '')"

text \<open>
  The dictionary \<^verbatim>\<open>updates\<close> that \<^verbatim>\<open>update_redmine_on_issues\<close> builds for one issue;
  \<open>Inr None\<close> for an issue in a rejected status, for which none is built. \<open>USERS\<close> is the
  table read from \<^verbatim>\<open>config/users.yaml\<close>, a parameter like \<open>CONFIG\<close>.
\<close>

definition issue_updates ::
  "(string \<rightharpoonup> int) \<Rightarrow> Status_enum \<Rightarrow> pull_request \<Rightarrow> Issue \<Rightarrow> exn + updates option" where
  "issue_updates USERS ST pull_request issue =
     (let pr_url = pr_html_url pull_request;
          assignee = USERS (pr_user_login pull_request)
      in case Status ST (issue_status_id issue) of
           Inl e \<Rightarrow> Inl e
         | Inr status \<Rightarrow>
             if is_rejected ST status then Inr None
             else
               (case (if \<not> pr_is_cherry_pick pull_request then
                        (case issue_pr_field issue of
                           None \<Rightarrow> Inl AttributeError
                         | Some (field_id, field_value) \<Rightarrow>
                             if pr_url \<notin> set field_value
                             then Inr (Some [(field_id, field_value @ [pr_url])])
                             else Inr None)
                      else Inr None) of
                  Inl e \<Rightarrow> Inl e
                | Inr pr_links \<Rightarrow>
                    Inr (Some
                      \<lparr>custom_fields = pr_links,
                       assigned_to_id =
                         (if assignee \<noteq> None \<and> assignee \<noteq> Some 0 \<and> issue_assigned_to issue = None
                          then assignee else None),
                       status_id =
                         (if \<not> (is_closed ST status \<or> status = READY_FOR_TESTING ST)
                          then Some (READY_FOR_TESTING ST) else None)\<rparr>)))"

text \<open>The body of the loop over the issues: one \<^verbatim>\<open>issue.save\<close> when \<^verbatim>\<open>updates\<close> is not empty.\<close>

definition update_issue ::
  "'w boundary \<Rightarrow> (string \<rightharpoonup> int) \<Rightarrow> Status_enum \<Rightarrow> pull_request \<Rightarrow> Issue \<Rightarrow> 'w state
     \<Rightarrow> (exn + unit) \<times> 'w state" where
  "update_issue B USERS ST pull_request issue s =
     (case issue_updates USERS ST pull_request issue of
        Inl e \<Rightarrow> (Inl e, s)
      | Inr None \<Rightarrow> (Inr (), s)
      | Inr (Some u) \<Rightarrow>
          if u \<noteq> no_updates then call (IssueSave (issue_id issue) u) (save B issue u) s
          else (Inr (), s))"

fun update_redmine_on_issues ::
  "'w boundary \<Rightarrow> (string \<rightharpoonup> int) \<Rightarrow> Status_enum \<Rightarrow> pull_request \<Rightarrow> Issue list \<Rightarrow> 'w state
     \<Rightarrow> (exn + unit) \<times> 'w state" where
  "update_redmine_on_issues B USERS ST pull_request [] s = (Inr (), s)"
| "update_redmine_on_issues B USERS ST pull_request (issue # issues) s =
     (case update_issue B USERS ST pull_request issue s of
        (Inl e, s1) \<Rightarrow> (Inl e, s1)
      | (Inr _, s1) \<Rightarrow> update_redmine_on_issues B USERS ST pull_request issues s1)"

text \<open>
  The report of a validation whose body returned: the dictionary \<^verbatim>\<open>summary\<close>, the
  conclusion and the output (the \<^verbatim>\<open>else\<close> branch of \<^verbatim>\<open>run_pull_request_check\<close> after the
  tracker update). The issue numbers that were not found are printed by the f-string of
  \<^verbatim>\<open>summarize\<close>.
\<close>

definition summary_of :: "IssueValidation \<Rightarrow> Commit list \<Rightarrow> (string \<times> string list) list" where
  "summary_of issue_results invalid_commits =
     [(''Invalid commits'', format_invalid_commit_messages invalid_commits),
      (''Invalid project'', format_redmine_issues (invalid_project_issues issue_results)),
      (''Issues not found in redmine'', map str_int (missing_issue_ids issue_results)),
      (''Valid issues'', format_redmine_issues (valid_issues issue_results))]"

definition report :: "IssueValidation \<Rightarrow> Commit list \<Rightarrow> check_run \<Rightarrow> string \<times> check_output" where
  "report issue_results invalid_commits check_run =
     (let summary = summary_of issue_results invalid_commits;
          non_empty = map fst (filter (\<lambda>(title, lines). lines \<noteq> []) summary);
          multiple_sections = (length non_empty \<noteq> 1);
          conclusion =
            (if \<not> list_ex (\<lambda>header. header \<noteq> ''Valid issues'') non_empty
             then ''success'' else ''failure'');
          text = format_details (invalid_project_issues issue_results)
                   (validation_project issue_results)
      in (conclusion,
          \<lparr>output_title = (if multiple_sections then ''Redmine Issue Report'' else hd non_empty),
           output_summary = join NL (summarize summary multiple_sections),
           output_text =
             (if text = [] \<and> (cr_output_text check_run = None \<or> cr_output_text check_run = Some [])
              then None else Some text)\<rparr>))"

definition unknown_repository_output :: check_output where
  "unknown_repository_output =
     \<lparr>output_title = ''Unknown repository'',
      output_summary = ''Contact us via [Discourse](https://community.theforeman.org]'',
      output_text = None\<rparr>"

definition internal_error_output :: check_output where
  "internal_error_output =
     \<lparr>output_title = ''Internal error while testing'',
      output_summary = ''Please retry later'',
      output_text = None\<rparr>"

text \<open>The final \<^verbatim>\<open>github_api.patch\<close> of \<^verbatim>\<open>run_pull_request_check\<close>.\<close>

definition complete_check ::
  "'w boundary \<Rightarrow> pull_request \<Rightarrow> check_run \<Rightarrow> string \<Rightarrow> check_output \<Rightarrow> 'w state
     \<Rightarrow> (exn + unit) \<times> 'w state" where
  "complete_check B pull_request check_run conclusion out s =
     (let data = Completed (pr_head_ref pull_request) (pr_head_sha pull_request) (now B (fst s))
                   conclusion out
      in case call (ApiPatch (cr_url check_run) data) (patch B (cr_url check_run) data) s of
           (Inl e, s1) \<Rightarrow> (Inl e, s1)
         | (Inr _, s1) \<Rightarrow> (Inr (), s1))"

text \<open>
  \<^verbatim>\<open>run_pull_request_check\<close>. The conclusion starts as \<^verbatim>\<open>'failure'\<close>; only \<open>report\<close> can make
  it \<^verbatim>\<open>'success'\<close>. With no \<^verbatim>\<open>break\<close> the names \<^verbatim>\<open>issue_results\<close> and \<^verbatim>\<open>invalid_commits\<close> are
  unbound in the \<^verbatim>\<open>else\<close> branch: the update of the tracker raises inside its
  \<^verbatim>\<open>try\<close>, and the next statement raises \<^verbatim>\<open>UnboundLocalError\<close>.
\<close>

definition run_pull_request_check ::
  "'w boundary \<Rightarrow> (string \<rightharpoonup> Config) \<Rightarrow> (string \<rightharpoonup> int) \<Rightarrow> Status_enum \<Rightarrow> pull_request
     \<Rightarrow> check_run option \<Rightarrow> 'w state \<Rightarrow> (exn + unit) \<times> 'w state" where
  "run_pull_request_check B CONFIG USERS ST pull_request check_run0 s =
     (case set_check_in_progress B pull_request check_run0 s of
        (Inl e, s0) \<Rightarrow> (Inl e, s0)
      | (Inr check_run, s0) \<Rightarrow>
          (let attempts = 3 in
           case attempt_loop B CONFIG pull_request attempts [1..<attempts + 1] s0 of
             (Inl UnconfiguredRepository, s1) \<Rightarrow>
               complete_check B pull_request check_run ''failure'' unknown_repository_output s1
           | (Inl e, s1) \<Rightarrow>
               complete_check B pull_request check_run ''failure'' internal_error_output
                 (log_exception ''Failure during validation of PR'' s1)
           | (Inr None, s1) \<Rightarrow>
               (Inl UnboundLocalError, log_exception ''Failed to update Redmine issues'' s1)
           | (Inr (Some (issue_results, invalid_commits)), s1) \<Rightarrow>
               (let s2 = (case update_redmine_on_issues B USERS ST pull_request
                                 (valid_issues issue_results) s1 of
                            (Inl e, s') \<Rightarrow> log_exception ''Failed to update Redmine issues'' s'
                          | (Inr _, s') \<Rightarrow> s');
                    (conclusion, out) = report issue_results invalid_commits check_run
                in complete_check B pull_request check_run conclusion out s2)))"

subsection \<open>A merged pull request\<close>

text \<open>
  Modelled from the spec: \<^verbatim>\<open>strip_suffix\<close> of \<^verbatim>\<open>prprocessor.compat\<close> is not part of the
  sources. For a branch \<^verbatim>\<open><version>-stable\<close> the version prefix is derived from the branch
  name (section 4.6): the name without the suffix.
\<close>

definition strip_suffix :: "string \<Rightarrow> string \<Rightarrow> string" where
  "strip_suffix s suffix =
     (if endswith s suffix then take (length s - length suffix) s else s)"

text \<open>
  The branch test of \<^verbatim>\<open>on_pr_merge\<close>: the version prefix that the target branch gives, or
  \<open>None\<close> for a branch on which the handler returns.
\<close>

definition branch_version_prefix :: "string \<Rightarrow> string option" where
  "branch_version_prefix target_branch =
     (if endswith target_branch ''-stable''
      then Some (strip_suffix target_branch ''-stable'' @ ''.'')
      else if target_branch \<in> set [''main'', ''master'', ''develop'', ''deb/develop'', ''rpm/develop'']
      then Some []
      else None)"

text \<open>The last loop of \<^verbatim>\<open>on_pr_merge\<close>, over the issues that \<^verbatim>\<open>get_issues\<close> returned.\<close>

fun set_fixed_all ::
  "'w boundary \<Rightarrow> Project \<Rightarrow> string \<Rightarrow> Issue list \<Rightarrow> 'w state \<Rightarrow> (exn + unit) \<times> 'w state" where
  "set_fixed_all B proj fixed_in_version [] s = (Inr (), s)"
| "set_fixed_all B proj fixed_in_version (issue # issues) s =
     (if project_id (issue_project issue) = project_id proj then
        (case call (SetFixedInVersion (issue_id issue) fixed_in_version)
                (set_fixed_in_version B issue fixed_in_version) s of
           (Inl e, s1) \<Rightarrow> (Inl e, s1)
         | (Inr _, s1) \<Rightarrow> set_fixed_all B proj fixed_in_version issues s1)
      else set_fixed_all B proj fixed_in_version issues s)"

text \<open>
  \<^verbatim>\<open>on_pr_merge\<close>. A project key or a configured prefix that is the empty string is
  false in a condition, like \<^verbatim>\<open>None\<close>.
\<close>

definition on_pr_merge ::
  "'w boundary \<Rightarrow> (string \<rightharpoonup> Config) \<Rightarrow> pull_request \<Rightarrow> 'w state \<Rightarrow> (exn + unit) \<times> 'w state" where
  "on_pr_merge B CONFIG pull_request s =
     (if \<not> pr_merged pull_request then (Inr (), s)
      else
        (let repository = pr_base_repo_full_name pull_request;
             target_branch = pr_base_ref pull_request
         in case branch_version_prefix target_branch of
              None \<Rightarrow> (Inr (), s)
            | Some branch_prefix \<Rightarrow>
                (case get_config CONFIG repository of
                   Inl e \<Rightarrow> if e = UnconfiguredRepository then (Inr (), s) else (Inl e, s)
                 | Inr config \<Rightarrow>
                     if project config = None \<or> project config = Some [] then (Inr (), s)
                     else
                       (let prefix =
                              (if version_prefix config = None \<or> version_prefix config = Some []
                               then branch_prefix
                               else the (version_prefix config) @ branch_prefix)
                        in case get_commits_from_pull_request B pull_request s of
                             (Inl e, s1) \<Rightarrow> (Inl e, s1)
                           | (Inr commits, s1) \<Rightarrow>
                               (let issue_ids = foldl (\<lambda>ids commit. ids \<union> fixes commit) {} commits
                                in if issue_ids = {} then (Inr (), s1)
                                   else
                                     (case call (ProjectGet (the (project config)))
                                             (project_get B (the (project config))) s1 of
                                        (Inl e, s2) \<Rightarrow> (Inl e, s2)
                                      | (Inr proj, s2) \<Rightarrow>
                                          (case call (GetLatestOpenVersion proj prefix)
                                                  (get_latest_open_version B proj prefix) s2 of
                                             (Inl e, s3) \<Rightarrow> (Inl e, s3)
                                           | (Inr None, s3) \<Rightarrow> (Inr (), s3)
                                           | (Inr (Some fixed_in_version), s3) \<Rightarrow>
                                               (case call (GetIssues issue_ids)
                                                       (get_issues B issue_ids) s3 of
                                                  (Inl e, s4) \<Rightarrow> (Inl e, s4)
                                                | (Inr issues, s4) \<Rightarrow>
                                                    set_fixed_all B proj fixed_in_version
                                                      issues s4))))))))"

subsection \<open>The tracker after a save\<close>

text \<open>
  Modelled from the spec: the Tracker is outside the program; its issue save is a
  partial field update (section 6). Each field that \<^verbatim>\<open>updates\<close> carries replaces the stored
  one (a custom field is replaced by the value given for its id), every other field is
  kept. \<open>after_update\<close> is an issue as the tracker holds it after the save, if any, that
  \<^verbatim>\<open>update_redmine_on_issues\<close> makes for it.
\<close>

definition apply_updates :: "updates \<Rightarrow> Issue \<Rightarrow> Issue" where
  "apply_updates u issue =
     issue
       \<lparr>issue_pr_field :=
          (case issue_pr_field issue of
             None \<Rightarrow> None
           | Some (field_id, field_value) \<Rightarrow>
               (case custom_fields u of
                  None \<Rightarrow> Some (field_id, field_value)
                | Some given \<Rightarrow>
                    (case map_of given field_id of
                       None \<Rightarrow> Some (field_id, field_value)
                     | Some new_value \<Rightarrow> Some (field_id, new_value)))),
        issue_assigned_to :=
          (case assigned_to_id u of None \<Rightarrow> issue_assigned_to issue | Some a \<Rightarrow> Some a),
        issue_status_id :=
          (case status_id u of None \<Rightarrow> issue_status_id issue | Some v \<Rightarrow> v)\<rparr>"

definition after_update ::
  "(string \<rightharpoonup> int) \<Rightarrow> Status_enum \<Rightarrow> pull_request \<Rightarrow> Issue \<Rightarrow> Issue" where
  "after_update USERS ST pull_request issue =
     (case issue_updates USERS ST pull_request issue of
        Inr (Some u) \<Rightarrow> apply_updates u issue
      | _ \<Rightarrow> issue)"

text \<open>The saves that a pass over the issues makes when nothing raises, in order.\<close>

definition expected_saves ::
  "(string \<rightharpoonup> int) \<Rightarrow> Status_enum \<Rightarrow> pull_request \<Rightarrow> Issue list \<Rightarrow> event list" where
  "expected_saves USERS ST pull_request issues =
     List.map_filter
       (\<lambda>issue. case issue_updates USERS ST pull_request issue of
                   Inr (Some u) \<Rightarrow>
                     if u \<noteq> no_updates then Some (IssueSave (issue_id issue) u) else None
                 | _ \<Rightarrow> None)
       issues"

subsection \<open>The grammar of a commit summary, as the specification words it\<close>

text \<open>
  Section 4.1 of the specification: the first line of a message is
  \<^verbatim>\<open>("fixes"|"refs") SPACE REFLIST (":"|" -") REST\<close>, case-insensitive, where \<^verbatim>\<open>REFLIST\<close> is one
  or more \<^verbatim>\<open>#<digits>\<close> tokens separated by \<^verbatim>\<open>,\<close> with an optional space. A
  \<open>summary_line\<close> holds the parts of such a line: the action word as written, the digits
  of the first token, for each further token whether a space follows the comma and its
  digits, the separator, and the rest. \<open>render\<close> writes the line. \<open>first_line\<close> is the
  text before the first line boundary.
\<close>

datatype separator = Colon | SpaceDash

record summary_line =
  action_word :: ustring
  first_ref :: ustring
  more_refs :: "(bool \<times> ustring) list"
  sep :: separator
  rest :: ustring

definition sep_text :: "separator \<Rightarrow> ustring" where
  "sep_text s = (case s of Colon \<Rightarrow> ustr '':'' | SpaceDash \<Rightarrow> ustr '' -'')"

definition more_text :: "bool \<times> ustring \<Rightarrow> ustring" where
  "more_text m = ustr '','' @ (if fst m then ustr '' '' else []) @ ustr ''#'' @ snd m"

definition reflist_text :: "summary_line \<Rightarrow> ustring" where
  "reflist_text l = ustr ''#'' @ first_ref l @ concat (map more_text (more_refs l))"

definition render :: "summary_line \<Rightarrow> ustring" where
  "render l = action_word l @ ustr '' '' @ reflist_text l @ sep_text (sep l) @ rest l"

definition first_line :: "ustring \<Rightarrow> ustring" where
  "first_line m = takeWhile (\<lambda>c. \<not> is_linebreak c) m"

text \<open>
  The tokens of a line are its first reference and the further ones. \<open>digits\<close> is a
  string of one or more decimal digits, and \<open>ref_ids\<close> the integers that the tokens of
  a line write.
\<close>

definition tokens :: "summary_line \<Rightarrow> ustring list" where
  "tokens l = first_ref l # map snd (more_refs l)"

definition digits :: "ustring \<Rightarrow> bool" where
  "digits d = (d \<noteq> [] \<and> list_all is_decimal d)"

definition ref_ids :: "summary_line \<Rightarrow> int set" where
  "ref_ids l = set (map digits_value (tokens l))"

text \<open>
  Three conditions on a line. It is \<open>well_formed\<close> when the action word is \<^verbatim>\<open>fixes\<close> or
  \<^verbatim>\<open>refs\<close> up to the case of its letters, every token is \<^verbatim>\<open>#\<close> and digits, and the rest
  begins with a space. It is \<open>within_limit\<close> when no token has more digits than \<^verbatim>\<open>int\<close>
  reads. It is \<open>loosely_formed\<close> when it is as a well-formed line but for the action word,
  which is spelt with the characters that \<^verbatim>\<open>re.IGNORECASE\<close> accepts for the letters of
  \<^verbatim>\<open>fixes\<close> or of \<^verbatim>\<open>refs\<close>: every well-formed line is loosely formed, and so is one that
  writes U+017F for \<^verbatim>\<open>s\<close>, or U+0130 or U+0131 for \<^verbatim>\<open>i\<close>.
\<close>

definition spaced :: "summary_line \<Rightarrow> bool" where
  "spaced l = (take 1 (rest l) = ustr '' '')"

definition well_formed :: "summary_line \<Rightarrow> bool" where
  "well_formed l =
     ((lower (action_word l) = ustr ''fixes'' \<or> lower (action_word l) = ustr ''refs'')
      \<and> list_all digits (tokens l) \<and> spaced l)"

definition within_limit :: "summary_line \<Rightarrow> bool" where
  "within_limit l = list_all (\<lambda>d. length d \<le> INT_MAX_STR_DIGITS) (tokens l)"

definition loosely_formed :: "summary_line \<Rightarrow> bool" where
  "loosely_formed l =
     ((list_all2 (lit_eq True) ''fixes'' (action_word l)
       \<or> list_all2 (lit_eq True) ''refs'' (action_word l))
      \<and> list_all digits (tokens l) \<and> spaced l)"

subsection \<open>Reading a trace\<close>

text \<open>
  What the properties below say about the recorded calls: the conclusion and output of
  a final patch, which calls write to a check run, which of them complete it, and the
  sleeps.
\<close>

fun completion_of :: "event \<Rightarrow> (string \<times> check_output) option" where
  "completion_of (ApiPatch url (Completed branch commit at conclusion out)) = Some (conclusion, out)"
| "completion_of _ = None"

definition final_report :: "event list \<Rightarrow> (string \<times> check_output) option" where
  "final_report tr = (if tr = [] then None else completion_of (last tr))"

fun is_check_write :: "event \<Rightarrow> bool" where
  "is_check_write (ApiPost url data) = True"
| "is_check_write (ApiPatch url data) = True"
| "is_check_write _ = False"

fun is_completion :: "event \<Rightarrow> bool" where
  "is_completion (ApiPost url data) = (data_status data = ''completed'')"
| "is_completion (ApiPatch url data) = (data_status data = ''completed'')"
| "is_completion _ = False"

fun is_sleep :: "event \<Rightarrow> bool" where
  "is_sleep (Sleep n) = True"
| "is_sleep _ = False"

fun sleeps_of :: "event list \<Rightarrow> nat list" where
  "sleeps_of [] = []"
| "sleeps_of (Sleep n # es) = n # sleeps_of es"
| "sleeps_of (_ # es) = sleeps_of es"

definition calm :: "event list \<Rightarrow> bool" where
  "calm ev = list_all (\<lambda>e. \<not> is_check_write e \<and> \<not> is_sleep e) ev"

text \<open>
  The conclusion and output that \<^verbatim>\<open>run_pull_request_check\<close> sends, by the result of the
  loop: the report of the validation, or one of the two fixed outputs.
\<close>

definition loop_report ::
  "exn + (IssueValidation \<times> Commit list) option \<Rightarrow> check_run \<Rightarrow> string \<times> check_output" where
  "loop_report res cr =
     (case res of
        Inr (Some (iv, ic)) \<Rightarrow> report iv ic cr
      | Inl UnconfiguredRepository \<Rightarrow> (''failure'', unknown_repository_output)
      | _ \<Rightarrow> (''failure'', internal_error_output))"

fun is_set_fixed :: "event \<Rightarrow> bool" where
  "is_set_fixed (SetFixedInVersion i v) = True"
| "is_set_fixed _ = False"

text \<open>
  The issues, among those that \<^verbatim>\<open>get_issues\<close> returned, that belong to the project: the
  ones for which \<^verbatim>\<open>on_pr_merge\<close> calls \<^verbatim>\<open>set_fixed_in_version\<close>.
\<close>

definition merge_targets :: "Project \<Rightarrow> Issue list \<Rightarrow> Issue list" where
  "merge_targets proj issues =
     filter (\<lambda>issue. project_id (issue_project issue) = project_id proj) issues"

subsection \<open>The language of a pattern\<close>

text \<open>
  For the proofs about the matcher: the set of strings that a pattern without anchors
  generates (\<open>star\<close> is iteration, by non-empty pieces), the names of its groups, and
  what it means for a matching function to return only, and all of, the splits of the
  input by a language, and to keep a capture. The named parts of
  \<^verbatim>\<open>COMMIT_VALID_SUMMARY_REGEX\<close>; and \<open>cut\<close>, the length of the text before the first \<^verbatim>\<open>:\<close>
  or the first space that no \<^verbatim>\<open>#\<close> follows.
\<close>

inductive_set star :: "ustring set \<Rightarrow> ustring set" for L :: "ustring set" where
  star_nil: "[] \<in> star L"
| star_step: "v \<in> L \<Longrightarrow> v \<noteq> [] \<Longrightarrow> w \<in> star L \<Longrightarrow> v @ w \<in> star L"

primrec lang :: "bool \<Rightarrow> regex \<Rightarrow> ustring set" where
  "lang ic Eps = {[]}"
| "lang ic (Lit p) = {[c] | c. lit_eq ic p c}"
| "lang ic Digit = {[c] | c. is_decimal c}"
| "lang ic AnyChar = {[c] | c. c \<noteq> 0x0A}"
| "lang ic StartA = {[]}"
| "lang ic EndZ = {[]}"
| "lang ic (Cat r1 r2) = {u @ v | u v. u \<in> lang ic r1 \<and> v \<in> lang ic r2}"
| "lang ic (Alt r1 r2) = lang ic r1 \<union> lang ic r2"
| "lang ic (Opt r) = insert [] (lang ic r)"
| "lang ic (Star r) = star (lang ic r)"
| "lang ic (Grp name r) = lang ic r"

primrec anchor_free :: "regex \<Rightarrow> bool" where
  "anchor_free Eps = True"
| "anchor_free (Lit p) = True"
| "anchor_free Digit = True"
| "anchor_free AnyChar = True"
| "anchor_free StartA = False"
| "anchor_free EndZ = False"
| "anchor_free (Cat r1 r2) = (anchor_free r1 \<and> anchor_free r2)"
| "anchor_free (Alt r1 r2) = (anchor_free r1 \<and> anchor_free r2)"
| "anchor_free (Opt r) = anchor_free r"
| "anchor_free (Star r) = anchor_free r"
| "anchor_free (Grp name r) = anchor_free r"

primrec grp_names :: "regex \<Rightarrow> string set" where
  "grp_names Eps = {}"
| "grp_names (Lit p) = {}"
| "grp_names Digit = {}"
| "grp_names AnyChar = {}"
| "grp_names StartA = {}"
| "grp_names EndZ = {}"
| "grp_names (Cat r1 r2) = grp_names r1 \<union> grp_names r2"
| "grp_names (Alt r1 r2) = grp_names r1 \<union> grp_names r2"
| "grp_names (Opt r) = grp_names r"
| "grp_names (Star r) = grp_names r"
| "grp_names (Grp name r) = insert name (grp_names r)"

definition sound_for :: "(mstate \<Rightarrow> mstate list) \<Rightarrow> ustring set \<Rightarrow> bool" where
  "sound_for f L \<longleftrightarrow>
     (\<forall>p s c p' s' c'. (p', s', c') \<in> set (f (p, s, c)) \<longrightarrow>
        (\<exists>u. s = u @ s' \<and> p' = p + length u \<and> u \<in> L))"

definition complete_for :: "(mstate \<Rightarrow> mstate list) \<Rightarrow> ustring set \<Rightarrow> bool" where
  "complete_for f L \<longleftrightarrow>
     (\<forall>u \<in> L. \<forall>p s' c. \<exists>c'. (p + length u, s', c') \<in> set (f (p, u @ s', c)))"

definition cap_kept :: "(mstate \<Rightarrow> mstate list) \<Rightarrow> string \<Rightarrow> bool" where
  "cap_kept f n \<longleftrightarrow>
     (\<forall>p s c p' s' c'. (p', s', c') \<in> set (f (p, s, c)) \<longrightarrow> map_of c' n = map_of c n)"

definition item_rx :: regex where
  "item_rx = Grp ''4'' (Cat (Lit CHR '','') (Cat (Opt (Lit CHR '' ''))
                            (Cat (Lit CHR ''#'') (Grp ''5'' (Plus Digit)))))"

definition issues_rx :: regex where
  "issues_rx = Cat (Lit CHR ''#'') (Cat (Grp ''3'' (Plus Digit)) (Star item_rx))"

definition action_rx :: regex where
  "action_rx = Alt (Str ''fixes'') (Str ''refs'')"

definition sep_rx :: regex where
  "sep_rx = Grp ''6'' (Alt (Lit CHR '':'') (Str '' -''))"

fun cut :: "ustring \<Rightarrow> nat" where
  "cut [] = 0"
| "cut (c # cs) =
     (if c = 0x3A \<or> (c = 0x20 \<and> (case cs of [] \<Rightarrow> True | c' # _ \<Rightarrow> c' \<noteq> 0x23))
      then 0 else Suc (cut cs))"

subsection \<open>The issue verifier, and an outside world for examples\<close>

text \<open>
  Modelled from the spec: \<^verbatim>\<open>verify_issues\<close> of \<^verbatim>\<open>prprocessor.redmine\<close> is not part of the
  sources. By section 4.3 of the specification it resolves the policy's tracker project
  (failing with \<open>UnknownProject\<close> when it is unset or absent), fetches the requested
  issues, and partitions: an id with no issue is missing; an issue whose project differs
  from the target project and is not among the extra accepted projects has an invalid
  project; every other issue is valid; the results are sorted by issue id. The tracker
  is given by its projects (by key) and its issues (by id).
\<close>

definition spec_verify_issues ::
  "(string \<rightharpoonup> Project) \<Rightarrow> (int \<rightharpoonup> Issue) \<Rightarrow> Config \<Rightarrow> int set \<Rightarrow> exn + IssueValidation" where
  "spec_verify_issues projects issues policy issue_ids =
     (case project policy of
        None \<Rightarrow> Inl UnknownProject
      | Some key \<Rightarrow>
          (case projects key of
             None \<Rightarrow> Inl UnknownProject
           | Some target \<Rightarrow>
               (let ids = sorted_list_of_set issue_ids;
                    found = sort_key issue_id (List.map_filter issues ids);
                    wrong = (\<lambda>issue.
                      project_identifier (issue_project issue) \<noteq> project_identifier target
                      \<and> project_identifier (issue_project issue) \<notin> config_refs policy)
                in Inr \<lparr>valid_issues = filter (\<lambda>issue. \<not> wrong issue) found,
                        invalid_project_issues = filter wrong found,
                        missing_issue_ids = filter (\<lambda>i. issues i = None) ids,
                        validation_project = target\<rparr>)))"

text \<open>
  An outside world for the examples: its state counts the calls of \<^verbatim>\<open>getitem\<close>, of which
  the first \<open>failures\<close> raise; \<^verbatim>\<open>issue.save\<close> raises when \<open>save_fails\<close>; the tracker holds the
  given projects, issues and open versions (by prefix).
\<close>

definition example_world ::
  "nat \<Rightarrow> bool \<Rightarrow> commit_item list \<Rightarrow> (string \<rightharpoonup> Project) \<Rightarrow> (int \<rightharpoonup> Issue)
     \<Rightarrow> (string \<rightharpoonup> string) \<Rightarrow> nat boundary" where
  "example_world failures save_fails items projects issues versions =
     \<lparr>now = (\<lambda>w. ''t'' @ str_nat w),
      getitem = (\<lambda>url w. (if w < failures then Inl (BoundaryError ''timeout'') else Inr items, Suc w)),
      post = (\<lambda>url data w.
        (Inr \<lparr>cr_url = url @ ''/1'', cr_status = data_status data, cr_output_text = None\<rparr>, w)),
      patch = (\<lambda>url data w.
        (Inr \<lparr>cr_url = url, cr_status = data_status data, cr_output_text = None\<rparr>, w)),
      sleep = (\<lambda>n w. w),
      verify_issues = (\<lambda>policy ids w. (spec_verify_issues projects issues policy ids, w)),
      save = (\<lambda>issue u w. (if save_fails then Inl (BoundaryError ''save'') else Inr (), w)),
      project_get = (\<lambda>key w.
        (case projects key of None \<Rightarrow> Inl (BoundaryError ''not found'') | Some p \<Rightarrow> Inr p, w)),
      get_latest_open_version = (\<lambda>p prefix w. (Inr (versions prefix), w)),
      get_issues = (\<lambda>ids w. (Inr (List.map_filter issues (sorted_list_of_set ids)), w)),
      set_fixed_in_version = (\<lambda>issue v w. (Inr (), w))\<rparr>"

definition example_pr :: pull_request where
  "example_pr =
     \<lparr>pr_title = ''Fix crash'', pr_commits_url = ''u/pulls/1/commits'', pr_head_ref = ''topic'',
      pr_head_sha = ''abc'', pr_base_repo_url = ''u'', pr_base_repo_full_name = ''theforeman/foo'',
      pr_base_ref = ''develop'', pr_html_url = ''h/pull/1'', pr_user_login = ''alice'',
      pr_merged = True, pr_number = 1\<rparr>"

definition project_foo :: Project where
  "project_foo = \<lparr>project_id = 1, project_identifier = ''foo'', project_name = ''Foo'',
                  project_url = ''r/projects/foo''\<rparr>"

definition project_bar :: Project where
  "project_bar = \<lparr>project_id = 2, project_identifier = ''bar'', project_name = ''Bar'',
                  project_url = ''r/projects/bar''\<rparr>"

definition example_projects :: "string \<rightharpoonup> Project" where
  "example_projects = [''foo'' \<mapsto> project_foo, ''bar'' \<mapsto> project_bar]"

definition issue_55 :: Issue where
  "issue_55 = \<lparr>issue_id = 55, issue_subject = ''Crash'', issue_url = ''r/issues/55'',
               issue_project = project_bar, issue_status_id = 1,
               issue_pr_field = Some (7, []), issue_assigned_to = None\<rparr>"

definition issue_123 :: Issue where
  "issue_123 = \<lparr>issue_id = 123, issue_subject = ''Crash'', issue_url = ''r/issues/123'',
               issue_project = project_foo, issue_status_id = 1,
               issue_pr_field = Some (7, []), issue_assigned_to = None\<rparr>"

definition example_issues :: "int \<rightharpoonup> Issue" where
  "example_issues = [55 \<mapsto> issue_55, 123 \<mapsto> issue_123]"

definition example_CONFIG :: "string \<rightharpoonup> Config" where
  "example_CONFIG =
     [''theforeman/foo'' \<mapsto>
        \<lparr>project = Some ''foo'', required = True, config_refs = {}, version_prefix = None\<rparr>]"

definition example_Status :: Status_enum where
  "example_Status =
     \<lparr>READY_FOR_TESTING = 7, other_values = [1, 2, 3, 4, 5, 6],
      is_rejected = (\<lambda>v. v = 6), is_closed = (\<lambda>v. v = 5)\<rparr>"

definition example_check_run :: check_run where
  "example_check_run =
     \<lparr>cr_url = ''u/check-runs/1'', cr_status = ''in_progress'', cr_output_text = None\<rparr>"

definition world_valid :: "nat boundary" where
  "world_valid =
     example_world 0 False [\<lparr>item_sha = ''abc'', item_message = ustr ''fixes #123: fix crash''\<rparr>]
       example_projects example_issues Map.empty"

definition world_save_fails :: "nat boundary" where
  "world_save_fails =
     example_world 0 True [\<lparr>item_sha = ''abc'', item_message = ustr ''fixes #123: fix crash''\<rparr>]
       example_projects example_issues Map.empty"

definition state_in_progress :: "nat state" where
  "state_in_progress =
     (0, [ApiPost ''u/check-runs'' (In_progress ''Redmine issues'' ''topic'' ''abc'' ''t0'')])"

definition validation_123 :: IssueValidation where
  "validation_123 =
     \<lparr>valid_issues = [issue_123], invalid_project_issues = [], missing_issue_ids = [],
      validation_project = project_foo\<rparr>"

definition state_verified :: "nat state" where
  "state_verified =
     (1, snd state_in_progress @
         [ApiGetitem ''u/pulls/1/commits'',
          VerifyIssues \<lparr>project = Some ''foo'', required = True, config_refs = {},
                         version_prefix = None\<rparr> {123}])"

definition example_pr_unconfigured :: pull_request where
  "example_pr_unconfigured = example_pr\<lparr>pr_base_repo_full_name := ''someone/repo''\<rparr>"

definition state_retried :: "nat state" where
  "state_retried =
     (0, snd state_in_progress @
         [LogException ''Failure during validation of PR (attempt %s)'', Sleep 1,
          LogException ''Failure during validation of PR (attempt %s)'', Sleep 2])"

definition updates_123 :: updates where
  "updates_123 =
     \<lparr>custom_fields = Some [(7, [''h/pull/1''])], assigned_to_id = None, status_id = Some 7\<rparr>"

definition state_saved :: "nat state" where
  "state_saved = (1, snd state_verified @ [IssueSave 123 updates_123])"

definition world_merge :: "nat boundary" where
  "world_merge =
     example_world 0 False [\<lparr>item_sha = ''abc'', item_message = ustr ''fixes #123: fix crash''\<rparr>,
        \<lparr>item_sha = ''abd'', item_message = ustr ''refs #55: more''\<rparr>]
       example_projects example_issues [''3.0.'' \<mapsto> ''3.0.5'']"

definition example_pr_stable :: pull_request where
  "example_pr_stable = example_pr\<lparr>pr_base_ref := ''3.0-stable''\<rparr>"

definition example_commits :: "Commit list" where
  "example_commits =
     [\<lparr>sha = ''abc'', message = ustr ''fixes #123: fix crash'', fixes = {123}, refs = {}\<rparr>,
      \<lparr>sha = ''abd'', message = ustr ''refs #55: more'', fixes = {}, refs = {55}\<rparr>]"

definition state_merge :: "nat \<Rightarrow> nat state" where
  "state_merge n =
     (1, take n [ApiGetitem ''u/pulls/1/commits'', ProjectGet ''foo'',
                 GetLatestOpenVersion project_foo ''3.0.'', GetIssues {123},
                 SetFixedInVersion 123 ''3.0.5''])"






text \<open>
  The summary line \<^verbatim>\<open>fixes #55\<close>, a separator, a space and a description; and the outside
  worlds of a pull request whose one commit has the message \<^verbatim>\<open>fixes #55\<close>, or
  \<^verbatim>\<open>fixes #55: fix crash\<close>, with a policy that does not require a reference.
\<close>

definition fixes_55_line :: "separator \<Rightarrow> ustring \<Rightarrow> summary_line" where
  "fixes_55_line sp d =
     \<lparr>action_word = ustr ''fixes'', first_ref = ustr ''55'', more_refs = [], sep = sp,
      rest = ustr '' '' @ d\<rparr>"

definition world_bare_55 :: "nat boundary" where
  "world_bare_55 =
     example_world 0 False [\<lparr>item_sha = ''abc'', item_message = ustr ''fixes #55''\<rparr>]
       example_projects example_issues Map.empty"

definition world_invalid_project :: "nat boundary" where
  "world_invalid_project =
     example_world 0 False [\<lparr>item_sha = ''abc'', item_message = ustr ''fixes #55: fix crash''\<rparr>]
       example_projects example_issues Map.empty"

definition example_CONFIG_optional :: "string \<rightharpoonup> Config" where
  "example_CONFIG_optional =
     [''theforeman/foo'' \<mapsto>
        \<lparr>project = Some ''foo'', required = False, config_refs = {}, version_prefix = None\<rparr>]"

text \<open>
  More worlds for the examples: one whose first \<^verbatim>\<open>getitem\<close> raises, and one with a commit
  that refers to an issue that the tracker does not have.
\<close>

definition world_flaky :: "nat boundary" where
  "world_flaky =
     example_world 1 False [\<lparr>item_sha = ''abc'', item_message = ustr ''fixes #123: fix crash''\<rparr>]
       example_projects example_issues Map.empty"

definition world_missing :: "nat boundary" where
  "world_missing =
     example_world 0 False [\<lparr>item_sha = ''abc'', item_message = ustr ''fixes #999: fix crash''\<rparr>]
       example_projects example_issues Map.empty"

definition state_flaky :: "nat state" where
  "state_flaky =
     (2, snd state_in_progress @
         [ApiGetitem ''u/pulls/1/commits'',
          LogException ''Failure during validation of PR (attempt %s)'', Sleep 1,
          ApiGetitem ''u/pulls/1/commits'',
          VerifyIssues \<lparr>project = Some ''foo'', required = True, config_refs = {},
                         version_prefix = None\<rparr> {123}])"

text \<open>
  A platform that holds one check run: the state of the world is the status of that
  check run, empty before it is created. A post or a patch sets the status that it
  sends; with \<open>rejects\<close> the platform answers a patch that completes the check run with
  an error and keeps the status. The tracker is that of the other examples.
\<close>

definition platform_world :: "bool \<Rightarrow> commit_item list \<Rightarrow> string boundary" where
  "platform_world rejects items =
     \<lparr>now = (\<lambda>w. ''t''),
      getitem = (\<lambda>url w. (Inr items, w)),
      post = (\<lambda>url data w.
        (Inr \<lparr>cr_url = url @ ''/1'', cr_status = data_status data, cr_output_text = None\<rparr>,
         data_status data)),
      patch = (\<lambda>url data w.
        if rejects \<and> data_status data = ''completed'' then (Inl (BoundaryError ''502''), w)
        else (Inr \<lparr>cr_url = url, cr_status = data_status data, cr_output_text = None\<rparr>,
              data_status data)),
      sleep = (\<lambda>n w. w),
      verify_issues = (\<lambda>policy ids w.
        (spec_verify_issues example_projects example_issues policy ids, w)),
      save = (\<lambda>issue u w. (Inr (), w)),
      project_get = (\<lambda>key w.
        (case example_projects key of None \<Rightarrow> Inl (BoundaryError ''not found'')
         | Some p \<Rightarrow> Inr p, w)),
      get_latest_open_version = (\<lambda>p prefix w. (Inr None, w)),
      get_issues = (\<lambda>ids w. (Inr (List.map_filter example_issues (sorted_list_of_set ids)), w)),
      set_fixed_in_version = (\<lambda>issue v w. (Inr (), w))\<rparr>"

definition platform_items :: "commit_item list" where
  "platform_items = [\<lparr>item_sha = ''abc'', item_message = ustr ''fixes #123: fix crash''\<rparr>]"

section \<open>Properties\<close>

lemma split_slash_append:
  "CHR ''/'' \<notin> set owner \<Longrightarrow> split_slash (owner @ CHR ''/'' # name) = Some (owner, name)"
  by (induction owner) auto

text \<open>
  C5. For a repository identifier \<open>owner/name\<close>, policy lookup raises
  \<open>UnconfiguredRepository\<close> exactly when the repository has no configuration entry and
  its owner is not one of the allowlisted organizations; with no entry and an
  allowlisted owner it returns the default policy, which has \<open>required = False\<close> and no
  tracker project.
\<close>

theorem get_config_unconfigured_iff:
  assumes "CHR ''/'' \<notin> set owner"
  shows "(get_config CONFIG (owner @ ''/'' @ name) = Inl UnconfiguredRepository
            \<longleftrightarrow> CONFIG (owner @ ''/'' @ name) = None \<and> owner \<notin> set WHITELISTED_ORGANIZATIONS)
         \<and> (CONFIG (owner @ ''/'' @ name) = None \<and> owner \<in> set WHITELISTED_ORGANIZATIONS
            \<longrightarrow> get_config CONFIG (owner @ ''/'' @ name) = Inr default_Config
                \<and> required default_Config = False \<and> project default_Config = None)"
  using split_slash_append [OF assms, of name]
  by (auto simp: get_config_def default_Config_def split: option.splits)

theorem get_config_unconfigured_iff_witness:
  "CHR ''/'' \<notin> set ''someone''
   \<and> get_config Map.empty (''someone'' @ ''/'' @ ''repo'') = Inl UnconfiguredRepository
   \<and> get_config Map.empty (''Katello'' @ ''/'' @ ''repo'') = Inr default_Config
   \<and> get_config Map.empty (''katello'' @ ''/'' @ ''repo'') = Inl UnconfiguredRepository"
  using get_config_unconfigured_iff [of "''someone''" Map.empty "''repo''"]
    get_config_unconfigured_iff [of "''Katello''" Map.empty "''repo''"]
    get_config_unconfigured_iff [of "''katello''" Map.empty "''repo''"]
  by (simp add: WHITELISTED_ORGANIZATIONS_def)

subsection \<open>The calls of a run\<close>

lemma calm_simps [simp]:
  "calm []"
  "calm (ev @ ev') \<longleftrightarrow> calm ev \<and> calm ev'"
  "calm (e # ev) \<longleftrightarrow> \<not> is_check_write e \<and> \<not> is_sleep e \<and> calm ev"
  by (auto simp: calm_def)

lemma sleeps_of_append: "sleeps_of (ev @ ev') = sleeps_of ev @ sleeps_of ev'"
  by (induction ev rule: sleeps_of.induct) auto

lemma calm_sleeps: "calm ev \<Longrightarrow> sleeps_of ev = []"
  by (induction ev rule: sleeps_of.induct) auto

lemma calm_no_write: "calm ev \<Longrightarrow> e \<in> set ev \<Longrightarrow> \<not> is_check_write e"
  by (auto simp: calm_def list_all_iff)

lemma calm_no_completion: "calm ev \<Longrightarrow> filter is_completion ev = []"
proof (induction ev)
  case Nil
  then show ?case by simp
next
  case (Cons e ev)
  then show ?case by (cases e) auto
qed

lemma call_trace: "call e f s = (r, s1) \<Longrightarrow> snd s1 = snd s @ [e]"
  by (auto simp: call_def split: prod.splits)

lemma get_commits_events:
  assumes "get_commits_from_pull_request B pr s = (r, s1)"
  shows "\<exists>ev. snd s1 = snd s @ ev \<and> calm ev"
proof -
  obtain r0 s0 where c: "call (ApiGetitem (pr_commits_url pr)) (getitem B (pr_commits_url pr)) s = (r0, s0)"
    by (cases "call (ApiGetitem (pr_commits_url pr)) (getitem B (pr_commits_url pr)) s") auto
  from assms c have "s1 = s0"
    by (cases r0) (auto simp: get_commits_from_pull_request_def)
  with call_trace [OF c] show ?thesis by simp
qed

lemma get_issues_from_pr_events:
  assumes "get_issues_from_pr B CONFIG pr s = (r, s2)"
  shows "\<exists>ev. snd s2 = snd s @ ev \<and> calm ev"
proof (cases "get_config CONFIG (pr_base_repo_full_name pr)")
  case (Inl e)
  with assms show ?thesis by (simp add: get_issues_from_pr_def)
next
  case (Inr config)
  obtain rc s1 where c: "get_commits_from_pull_request B pr s = (rc, s1)"
    by (cases "get_commits_from_pull_request B pr s") auto
  from get_commits_events [OF c] obtain ev where ev: "snd s1 = snd s @ ev" "calm ev" by blast
  show ?thesis
  proof (cases rc)
    case (Inl e)
    with Inr c ev assms show ?thesis by (auto simp: get_issues_from_pr_def)
  next
    case commits: (Inr commits)
    define ids where "ids = foldl (\<lambda>ids commit. ids \<union> fixes commit \<union> refs commit) {} commits"
    obtain rv sv where v: "call (VerifyIssues config ids) (verify_issues B config ids) s1 = (rv, sv)"
      by (cases "call (VerifyIssues config ids) (verify_issues B config ids) s1") auto
    from Inr c commits v assms have "s2 = sv"
      by (cases rv) (auto simp: get_issues_from_pr_def ids_def Let_def)
    with call_trace [OF v] ev show ?thesis by simp
  qed
qed

lemma attempt_loop_events:
  "attempt_loop B CONFIG pr n xs s = (res, s') \<Longrightarrow>
   \<exists>ev k. snd s' = snd s @ ev \<and> (\<forall>e \<in> set ev. \<not> is_check_write e)
      \<and> sleeps_of ev = take k xs \<and> n \<notin> set (take k xs)
      \<and> ((\<exists>e. res = Inl e) \<longrightarrow> k < length xs \<and> xs ! k = n)
      \<and> (res = Inr None \<longrightarrow> k = length xs)"
proof (induction xs arbitrary: s)
  case Nil
  then show ?case by auto
next
  case (Cons a xs)
  obtain r s1 where c: "get_issues_from_pr B CONFIG pr s = (r, s1)"
    by (cases "get_issues_from_pr B CONFIG pr s") auto
  from get_issues_from_pr_events [OF c] obtain ev where ev: "snd s1 = snd s @ ev" "calm ev"
    by blast
  show ?case
  proof (cases r)
    case (Inr v)
    with c Cons.prems have "res = Inr (Some v)" "s' = s1" by auto
    with ev show ?thesis
      by (intro exI [of _ ev] exI [of _ 0]) (auto simp: calm_sleeps calm_no_write)
  next
    case (Inl e)
    show ?thesis
    proof (cases "a = n")
      case True
      with Inl c Cons.prems have "res = Inl e" "s' = s1" by auto
      with ev True show ?thesis
        by (intro exI [of _ ev] exI [of _ 0]) (auto simp: calm_sleeps calm_no_write)
    next
      case False
      define s1' where "s1' = do_sleep B a (log_exception ''Failure during validation of PR (attempt %s)'' s1)"
      from Inl c False Cons.prems have l: "attempt_loop B CONFIG pr n xs s1' = (res, s')"
        by (simp add: s1'_def)
      from Cons.IH [OF l] obtain ev2 k where
        ev2: "snd s' = snd s1' @ ev2" "\<forall>e \<in> set ev2. \<not> is_check_write e"
          "sleeps_of ev2 = take k xs" "n \<notin> set (take k xs)"
          "(\<exists>e. res = Inl e) \<longrightarrow> k < length xs \<and> xs ! k = n"
          "res = Inr None \<longrightarrow> k = length xs"
        by blast
      have s1': "snd s1' = snd s1 @ [LogException ''Failure during validation of PR (attempt %s)'', Sleep a]"
        by (simp add: s1'_def do_sleep_def log_exception_def)
      let ?ev = "ev @ [LogException ''Failure during validation of PR (attempt %s)'', Sleep a] @ ev2"
      from ev ev2 s1' False show ?thesis
        by (intro exI [of _ ?ev] exI [of _ "Suc k"])
          (auto simp: sleeps_of_append calm_sleeps calm_no_write)
    qed
  qed
qed

lemma update_issue_events:
  assumes "update_issue B USERS ST pr issue s = (r, s1)"
  shows "\<exists>ev. snd s1 = snd s @ ev \<and> calm ev"
proof (cases "issue_updates USERS ST pr issue")
  case (Inl e)
  with assms show ?thesis by (simp add: update_issue_def)
next
  case (Inr uo)
  show ?thesis
  proof (cases uo)
    case None
    with Inr assms show ?thesis by (simp add: update_issue_def)
  next
    case (Some u)
    show ?thesis
    proof (cases "u = no_updates")
      case True
      with Inr Some assms show ?thesis by (simp add: update_issue_def)
    next
      case False
      with Inr Some assms have "call (IssueSave (issue_id issue) u) (save B issue u) s = (r, s1)"
        by (simp add: update_issue_def)
      from call_trace [OF this] show ?thesis by simp
    qed
  qed
qed

lemma update_redmine_on_issues_events:
  "update_redmine_on_issues B USERS ST pr issues s = (r, s') \<Longrightarrow>
   \<exists>ev. snd s' = snd s @ ev \<and> calm ev"
proof (induction issues arbitrary: s)
  case Nil
  then show ?case by simp
next
  case (Cons issue issues)
  obtain r1 s1 where c: "update_issue B USERS ST pr issue s = (r1, s1)"
    by (cases "update_issue B USERS ST pr issue s") auto
  from update_issue_events [OF c] obtain ev where ev: "snd s1 = snd s @ ev" "calm ev" by blast
  show ?case
  proof (cases r1)
    case (Inl e)
    with c Cons.prems ev show ?thesis by auto
  next
    case (Inr u)
    with c Cons.prems have "update_redmine_on_issues B USERS ST pr issues s1 = (r, s')" by simp
    from Cons.IH [OF this] ev show ?thesis by auto
  qed
qed

lemma complete_check_trace:
  "snd (snd (complete_check B pr cr c out s))
     = snd s @ [ApiPatch (cr_url cr) (Completed (pr_head_ref pr) (pr_head_sha pr) (now B (fst s)) c out)]"
  by (auto simp: complete_check_def call_def Let_def split: prod.splits sum.splits)

lemma final_report_snoc:
  "final_report (tr @ [ApiPatch url (Completed b c a conclusion out)]) = Some (conclusion, out)"
  by (simp add: final_report_def)

lemma run_after_loop:
  assumes ip: "set_check_in_progress B pr cr0 s = (Inr cr, s0)"
    and lp: "attempt_loop B CONFIG pr 3 [1..<3 + 1] s0 = (res, s1)"
  shows "run_pull_request_check B CONFIG USERS ST pr cr0 s =
     (case res of
        Inl e \<Rightarrow>
          if e = UnconfiguredRepository
          then complete_check B pr cr ''failure'' unknown_repository_output s1
          else complete_check B pr cr ''failure'' internal_error_output
                 (log_exception ''Failure during validation of PR'' s1)
      | Inr None \<Rightarrow> (Inl UnboundLocalError, log_exception ''Failed to update Redmine issues'' s1)
      | Inr (Some (iv, ic)) \<Rightarrow>
          complete_check B pr cr (fst (report iv ic cr)) (snd (report iv ic cr))
            (case update_redmine_on_issues B USERS ST pr (valid_issues iv) s1 of
               (Inl e, s') \<Rightarrow> log_exception ''Failed to update Redmine issues'' s'
             | (Inr _, s') \<Rightarrow> s'))"
  unfolding run_pull_request_check_def Let_def ip prod.case sum.case lp
  by (auto split: sum.splits exn.splits option.splits prod.splits)

lemma loop_three:
  assumes "attempt_loop B CONFIG pr 3 [1..<3 + 1] s0 = (res, s1)"
  shows "\<exists>ev. snd s1 = snd s0 @ ev \<and> (\<forall>e \<in> set ev. \<not> is_check_write e)
      \<and> (sleeps_of ev = [] \<or> sleeps_of ev = [1] \<or> sleeps_of ev = [1, 2])
      \<and> ((\<exists>e. res = Inl e) \<longrightarrow> sleeps_of ev = [1, 2])
      \<and> res \<noteq> Inr None"
proof -
  have xs: "[1..<3 + 1] = [1, 2, 3::nat]" by (simp add: upt_rec)
  from attempt_loop_events [OF assms] obtain ev k where
    ev: "snd s1 = snd s0 @ ev" "\<forall>e \<in> set ev. \<not> is_check_write e"
      "sleeps_of ev = take k [1, 2, 3]" "3 \<notin> set (take k [1, 2, 3::nat])"
      "(\<exists>e. res = Inl e) \<longrightarrow> k < length [1, 2, 3::nat] \<and> [1, 2, 3::nat] ! k = 3"
      "res = Inr None \<longrightarrow> k = length [1, 2, 3::nat]"
    unfolding xs by blast
  from ev(4) have k: "k = 0 \<or> k = 1 \<or> k = 2"
    by (cases k; cases "k - 1"; cases "k - 2") auto
  with ev show ?thesis
    by (intro exI [of _ ev]) (auto simp: nth_Cons')
qed

lemma final_report_append: "ys \<noteq> [] \<Longrightarrow> final_report (xs @ ys) = final_report ys"
  by (simp add: final_report_def)

lemma final_report_single: "final_report [e] = completion_of e"
  by (simp add: final_report_def)

lemma no_write_no_completion:
  "\<forall>e \<in> set ev. \<not> is_check_write e \<Longrightarrow> filter is_completion ev = []"
proof (induction ev)
  case Nil
  then show ?case by simp
next
  case (Cons e ev)
  then show ?case by (cases e) auto
qed

lemma set_check_in_progress_events:
  assumes "set_check_in_progress B pr cr0 s = (r, s0)"
  shows "\<exists>pre. snd s0 = snd s @ pre \<and> filter is_completion pre = []"
proof (cases cr0)
  case None
  with assms have "call (ApiPost (pr_base_repo_url pr @ ''/check-runs'')
      (In_progress CHECK_NAME (pr_head_ref pr) (pr_head_sha pr) (now B (fst s))))
    (post B (pr_base_repo_url pr @ ''/check-runs'')
      (In_progress CHECK_NAME (pr_head_ref pr) (pr_head_sha pr) (now B (fst s)))) s = (r, s0)"
    by (simp add: set_check_in_progress_def Let_def)
  from call_trace [OF this] show ?thesis by simp
next
  case (Some c)
  show ?thesis
  proof (cases "cr_status c = ''in_progress''")
    case True
    with Some assms show ?thesis by (simp add: set_check_in_progress_def)
  next
    case False
    let ?d = "In_progress CHECK_NAME (pr_head_ref pr) (pr_head_sha pr) (now B (fst s))"
    obtain r1 s1 where c: "call (ApiPatch (cr_url c) ?d) (patch B (cr_url c) ?d) s = (r1, s1)"
      by (cases "call (ApiPatch (cr_url c) ?d) (patch B (cr_url c) ?d) s") auto
    with Some False assms have "s0 = s1"
      by (cases r1) (auto simp: set_check_in_progress_def Let_def)
    with call_trace [OF c] show ?thesis by simp
  qed
qed

lemma report_conclusion:
  "fst (report iv ic cr) =
     (if (\<forall>(h, lines) \<in> set (summary_of iv ic). h \<noteq> ''Valid issues'' \<longrightarrow> lines = [])
      then ''success'' else ''failure'')"
  by (auto simp: report_def Let_def list_ex_iff)

lemma loop_report_conclusion:
  "fst (loop_report res cr) =
     (case res of
        Inr (Some (iv, ic)) \<Rightarrow>
          if (\<forall>(h, lines) \<in> set (summary_of iv ic). h \<noteq> ''Valid issues'' \<longrightarrow> lines = [])
          then ''success'' else ''failure''
      | _ \<Rightarrow> ''failure'')"
proof (cases res)
  case (Inl e)
  then show ?thesis by (cases e) (simp_all add: loop_report_def)
next
  case (Inr opt)
  show ?thesis
  proof (cases opt)
    case None
    with Inr show ?thesis by (simp add: loop_report_def)
  next
    case (Some p)
    obtain iv ic where "p = (iv, ic)" by (cases p)
    with Inr Some show ?thesis
      by (simp only: loop_report_def sum.case option.case prod.case report_conclusion)
  qed
qed

text \<open>The trace of a run whose check run is in progress, by the result of the loop.\<close>

lemma run_trace:
  assumes ip: "set_check_in_progress B pr cr0 s = (Inr cr, s0)"
    and lp: "attempt_loop B CONFIG pr 3 [1..<3 + 1] s0 = (res, s1)"
  shows "\<exists>mid at. snd (snd (run_pull_request_check B CONFIG USERS ST pr cr0 s))
      = snd s0 @ mid @ [ApiPatch (cr_url cr) (Completed (pr_head_ref pr) (pr_head_sha pr) at
          (fst (loop_report res cr)) (snd (loop_report res cr)))]
      \<and> (\<forall>e \<in> set mid. \<not> is_check_write e)"
proof -
  from loop_three [OF lp] obtain ev where
    ev: "snd s1 = snd s0 @ ev" "\<forall>e \<in> set ev. \<not> is_check_write e" "res \<noteq> Inr None"
    by blast
  note run = run_after_loop [OF ip lp, of USERS ST]
  show ?thesis
  proof (cases res)
    case (Inl e)
    show ?thesis
    proof (cases "e = UnconfiguredRepository")
      case True
      with Inl run ev show ?thesis
        by (intro exI [of _ ev]) (simp add: complete_check_trace loop_report_def)
    next
      case False
      with Inl run ev show ?thesis
        by (intro exI [of _ "ev @ [LogException ''Failure during validation of PR'']"])
          (auto simp: complete_check_trace log_exception_def loop_report_def split: exn.splits)
    qed
  next
    case (Inr opt)
    with ev(3) obtain iv ic where o: "opt = Some (iv, ic)" by (cases opt) auto
    obtain r s2 where up: "update_redmine_on_issues B USERS ST pr (valid_issues iv) s1 = (r, s2)"
      by (cases "update_redmine_on_issues B USERS ST pr (valid_issues iv) s1") auto
    from update_redmine_on_issues_events [OF up] obtain ev2 where
      ev2: "snd s2 = snd s1 @ ev2" "calm ev2" by blast
    then have nw: "\<forall>e \<in> set ev2. \<not> is_check_write e" by (auto dest: calm_no_write)
    show ?thesis
    proof (cases r)
      case (Inl e)
      with Inr o run up ev ev2 nw show ?thesis
        by (intro exI [of _ "ev @ ev2 @ [LogException ''Failed to update Redmine issues'']"])
          (auto simp: complete_check_trace log_exception_def loop_report_def)
    next
      case (Inr u)
      with \<open>res = Inr opt\<close> o run up ev ev2 nw show ?thesis
        by (intro exI [of _ "ev @ ev2"]) (auto simp: complete_check_trace loop_report_def)
    qed
  qed
qed

text \<open>A run whose check run is in progress ends with the final patch.\<close>

lemma complete_check_patch:
  "complete_check B pr cr c out s2 =
     (case patch B (cr_url cr)
             (Completed (pr_head_ref pr) (pr_head_sha pr) (now B (fst s2)) c out) (fst s2) of
        (r, w) \<Rightarrow>
          (case r of Inl e \<Rightarrow> Inl e | Inr h \<Rightarrow> Inr (),
           (w, snd s2 @ [ApiPatch (cr_url cr)
                  (Completed (pr_head_ref pr) (pr_head_sha pr) (now B (fst s2)) c out)])))"
  by (simp add: complete_check_def call_def Let_def split: prod.splits sum.splits)

lemma run_complete:
  assumes ip: "set_check_in_progress B pr cr0 s = (Inr cr, s0)"
    and lp: "attempt_loop B CONFIG pr 3 [1..<3 + 1] s0 = (res, s1)"
  shows "\<exists>s2 mid. run_pull_request_check B CONFIG USERS ST pr cr0 s
        = complete_check B pr cr (fst (loop_report res cr)) (snd (loop_report res cr)) s2
      \<and> snd s2 = snd s0 @ mid \<and> (\<forall>e \<in> set mid. \<not> is_check_write e)"
proof -
  from loop_three [OF lp] obtain ev where
    ev: "snd s1 = snd s0 @ ev" "\<forall>e \<in> set ev. \<not> is_check_write e" "res \<noteq> Inr None"
    by blast
  note run = run_after_loop [OF ip lp, of USERS ST]
  show ?thesis
  proof (cases res)
    case (Inl e)
    show ?thesis
    proof (cases "e = UnconfiguredRepository")
      case True
      with Inl run ev show ?thesis
        by (intro exI [of _ s1] exI [of _ ev]) (simp add: loop_report_def)
    next
      case False
      with Inl run ev show ?thesis
        by (intro exI [of _ "log_exception ''Failure during validation of PR'' s1"]
              exI [of _ "ev @ [LogException ''Failure during validation of PR'']"])
          (auto simp: log_exception_def loop_report_def split: exn.splits)
    qed
  next
    case (Inr opt)
    with ev(3) obtain iv ic where o: "opt = Some (iv, ic)" by (cases opt) auto
    obtain r s2 where up: "update_redmine_on_issues B USERS ST pr (valid_issues iv) s1 = (r, s2)"
      by (cases "update_redmine_on_issues B USERS ST pr (valid_issues iv) s1") auto
    from update_redmine_on_issues_events [OF up] obtain ev2 where
      ev2: "snd s2 = snd s1 @ ev2" "calm ev2" by blast
    then have nw: "\<forall>e \<in> set ev2. \<not> is_check_write e" by (auto dest: calm_no_write)
    show ?thesis
    proof (cases r)
      case (Inl e)
      with Inr o run up ev ev2 nw show ?thesis
        by (intro exI [of _ "log_exception ''Failed to update Redmine issues'' s2"]
              exI [of _ "ev @ ev2 @ [LogException ''Failed to update Redmine issues'']"])
          (auto simp: log_exception_def loop_report_def)
    next
      case (Inr u)
      with \<open>res = Inr opt\<close> o run up ev ev2 nw show ?thesis
        by (intro exI [of _ s2] exI [of _ "ev @ ev2"]) (auto simp: loop_report_def)
    qed
  qed
qed

lemma ex_ip: "set_check_in_progress world_valid example_pr None (0, []) = (Inr example_check_run, state_in_progress)"
  by code_simp

lemma ex_lp: "attempt_loop world_valid example_CONFIG example_pr 3 [1..<3 + 1] state_in_progress
   = (Inr (Some (validation_123, [])), state_verified)"
  by code_simp

subsection \<open>The check run\<close>

text \<open>
  C10. When an existing check-run handle is passed to \<^verbatim>\<open>set_check_in_progress\<close> and its
  status is already \<^verbatim>\<open>in_progress\<close>, the function makes no call at all (the state, which
  holds the recorded calls, is unchanged: neither a patch nor a post) and returns the
  handle it was given.
\<close>

theorem set_check_in_progress_noop:
  assumes "cr_status cr = ''in_progress''"
  shows "set_check_in_progress B pr (Some cr) s = (Inr cr, s)"
  using assms by (simp add: set_check_in_progress_def)

theorem set_check_in_progress_noop_witness:
  "cr_status example_check_run = ''in_progress''
   \<and> set_check_in_progress world_valid example_pr (Some example_check_run) (0, [])
       = (Inr example_check_run, (0, []))"
  using set_check_in_progress_noop [of example_check_run world_valid example_pr "(0, [])"]
  by (simp add: example_check_run_def)

lemma sort_key_Nil_iff: "sort_key f xs = [] \<longleftrightarrow> xs = []"
  by (metis length_0_conv length_sort)

lemma summary_other_empty:
  "(\<forall>(h, lines) \<in> set (summary_of iv ic). h \<noteq> ''Valid issues'' \<longrightarrow> lines = [])
     \<longleftrightarrow> ic = [] \<and> invalid_project_issues iv = [] \<and> missing_issue_ids iv = []"
  by (auto simp: summary_of_def format_invalid_commit_messages_def format_redmine_issues_def
        sort_key_Nil_iff)

lemma ex_lp_invalid_project:
  "set_check_in_progress world_invalid_project example_pr None (0, [])
     = (Inr example_check_run, state_in_progress)
   \<and> fst (attempt_loop world_invalid_project example_CONFIG example_pr 3 [1..<3 + 1]
            state_in_progress)
     = Inr (Some (\<lparr>valid_issues = [], invalid_project_issues = [issue_55],
                    missing_issue_ids = [], validation_project = project_foo\<rparr>, []))"
  by code_simp

lemma ex_lp_missing:
  "set_check_in_progress world_missing example_pr None (0, [])
     = (Inr example_check_run, state_in_progress)
   \<and> fst (attempt_loop world_missing example_CONFIG example_pr 3 [1..<3 + 1] state_in_progress)
     = Inr (Some (\<lparr>valid_issues = [], invalid_project_issues = [],
                    missing_issue_ids = [999], validation_project = project_foo\<rparr>, []))"
  by code_simp

lemma ex_lp_bare:
  "set_check_in_progress world_bare_55 example_pr None (0, [])
     = (Inr example_check_run, state_in_progress)
   \<and> fst (attempt_loop world_bare_55 example_CONFIG example_pr 3 [1..<3 + 1] state_in_progress)
     = Inr (Some (\<lparr>valid_issues = [], invalid_project_issues = [],
                    missing_issue_ids = [], validation_project = project_foo\<rparr>,
                  [\<lparr>sha = ''abc'', message = ustr ''fixes #55'', fixes = {}, refs = {}\<rparr>]))"
  by code_simp

text \<open>
  C1. Once the check run is in progress, the conclusion sent with the final patch is
  \<^verbatim>\<open>success\<close> if and only if the retry loop returned a validation with no invalid commit,
  no issue of an invalid project and no issue that was not found; in every other case
  (one of these findings, or a loop that ended with an exception, unconfigured
  repository or not) it is \<^verbatim>\<open>failure\<close>.
\<close>

theorem conclusion_success_iff:
  assumes ip: "set_check_in_progress B pr cr0 s = (Inr cr, s0)"
    and lp: "attempt_loop B CONFIG pr 3 [1..<3 + 1] s0 = (res, s1)"
  shows "map_option fst (final_report (snd (snd (run_pull_request_check B CONFIG USERS ST pr cr0 s))))
     = Some (case res of
               Inr (Some (iv, ic)) \<Rightarrow>
                 if ic = [] \<and> invalid_project_issues iv = [] \<and> missing_issue_ids iv = []
                 then ''success'' else ''failure''
             | _ \<Rightarrow> ''failure'')"
proof -
  from run_trace [OF ip lp, of USERS ST] obtain mid at where
    "snd (snd (run_pull_request_check B CONFIG USERS ST pr cr0 s))
      = (snd s0 @ mid) @ [ApiPatch (cr_url cr) (Completed (pr_head_ref pr) (pr_head_sha pr) at
          (fst (loop_report res cr)) (snd (loop_report res cr)))]"
    by auto
  then have "map_option fst (final_report (snd (snd (run_pull_request_check B CONFIG USERS ST pr cr0 s))))
     = Some (fst (loop_report res cr))"
    by (simp add: final_report_append final_report_single)
  then show ?thesis
    by (simp only: loop_report_conclusion summary_other_empty)
qed

theorem conclusion_success_iff_witness:
  "map_option fst (final_report (snd (snd
      (run_pull_request_check world_valid example_CONFIG Map.empty example_Status example_pr None
         (0, [])))))
   = Some ''success''
   \<and> map_option fst (final_report (snd (snd
      (run_pull_request_check world_invalid_project example_CONFIG Map.empty example_Status
         example_pr None (0, [])))))
   = Some ''failure''
   \<and> map_option fst (final_report (snd (snd
      (run_pull_request_check world_missing example_CONFIG Map.empty example_Status
         example_pr None (0, [])))))
   = Some ''failure''
   \<and> map_option fst (final_report (snd (snd
      (run_pull_request_check world_bare_55 example_CONFIG Map.empty example_Status
         example_pr None (0, [])))))
   = Some ''failure''"
proof -
  have lp: "\<exists>s1. attempt_loop B C p 3 [1..<3 + 1] s0 = (fst (attempt_loop B C p 3 [1..<3 + 1] s0), s1)"
    for B :: "nat boundary" and C p s0
    by (simp add: prod_eq_iff)
  from lp [of world_invalid_project example_CONFIG example_pr state_in_progress] obtain s1 where
    1: "attempt_loop world_invalid_project example_CONFIG example_pr 3 [1..<3 + 1] state_in_progress
        = (Inr (Some (\<lparr>valid_issues = [], invalid_project_issues = [issue_55],
                    missing_issue_ids = [], validation_project = project_foo\<rparr>, [])), s1)"
    unfolding ex_lp_invalid_project [THEN conjunct2] ..
  from lp [of world_missing example_CONFIG example_pr state_in_progress] obtain s2 where
    2: "attempt_loop world_missing example_CONFIG example_pr 3 [1..<3 + 1] state_in_progress
        = (Inr (Some (\<lparr>valid_issues = [], invalid_project_issues = [],
                    missing_issue_ids = [999], validation_project = project_foo\<rparr>, [])), s2)"
    unfolding ex_lp_missing [THEN conjunct2] ..
  from lp [of world_bare_55 example_CONFIG example_pr state_in_progress] obtain s3 where
    3: "attempt_loop world_bare_55 example_CONFIG example_pr 3 [1..<3 + 1] state_in_progress
        = (Inr (Some (\<lparr>valid_issues = [], invalid_project_issues = [],
                    missing_issue_ids = [], validation_project = project_foo\<rparr>,
                  [\<lparr>sha = ''abc'', message = ustr ''fixes #55'', fixes = {}, refs = {}\<rparr>])), s3)"
    unfolding ex_lp_bare [THEN conjunct2] ..
  from conclusion_success_iff [OF ex_ip ex_lp, of Map.empty example_Status]
    conclusion_success_iff [OF ex_lp_invalid_project [THEN conjunct1] 1, of Map.empty example_Status]
    conclusion_success_iff [OF ex_lp_missing [THEN conjunct1] 2, of Map.empty example_Status]
    conclusion_success_iff [OF ex_lp_bare [THEN conjunct1] 3, of Map.empty example_Status]
  show ?thesis
    by (simp add: validation_123_def)
qed

text \<open>
  C9, as the program has it. Once the check run is in progress, a run makes exactly one
  call that completes a check run, whichever way the retry loop ended: the patch of
  that check run with status \<^verbatim>\<open>completed\<close>, which is its last call. What the run
  returns and the state in which it leaves the platform are those of that patch: the
  run returns when the platform accepts the patch, and raises what the platform raises
  when it does not.
\<close>

theorem one_completion:
  assumes ip: "set_check_in_progress B pr cr0 s = (Inr cr, s0)"
  shows "\<exists>new data w2.
        snd (snd (run_pull_request_check B CONFIG USERS ST pr cr0 s)) = snd s @ new
      \<and> length (filter is_completion new) = 1
      \<and> last new = ApiPatch (cr_url cr) data \<and> data_status data = ''completed''
      \<and> fst (snd (run_pull_request_check B CONFIG USERS ST pr cr0 s))
          = snd (patch B (cr_url cr) data w2)
      \<and> fst (run_pull_request_check B CONFIG USERS ST pr cr0 s)
          = (case fst (patch B (cr_url cr) data w2) of Inl e \<Rightarrow> Inl e | Inr h \<Rightarrow> Inr ())"
proof -
  obtain res s1 where lp: "attempt_loop B CONFIG pr 3 [1..<3 + 1] s0 = (res, s1)"
    by (cases "attempt_loop B CONFIG pr 3 [1..<3 + 1] s0") auto
  from run_complete [OF ip lp, of USERS ST] obtain s2 mid where
    run: "run_pull_request_check B CONFIG USERS ST pr cr0 s
        = complete_check B pr cr (fst (loop_report res cr)) (snd (loop_report res cr)) s2"
    and mid: "snd s2 = snd s0 @ mid" "\<forall>e \<in> set mid. \<not> is_check_write e"
    by blast
  define data where "data = Completed (pr_head_ref pr) (pr_head_sha pr) (now B (fst s2))
      (fst (loop_report res cr)) (snd (loop_report res cr))"
  from set_check_in_progress_events [OF ip] obtain pre where
    pre: "snd s0 = snd s @ pre" "filter is_completion pre = []" by blast
  have r: "run_pull_request_check B CONFIG USERS ST pr cr0 s =
     (case patch B (cr_url cr) data (fst s2) of
        (r, w) \<Rightarrow> (case r of Inl e \<Rightarrow> Inl e | Inr h \<Rightarrow> Inr (),
                   (w, snd s2 @ [ApiPatch (cr_url cr) data])))"
    unfolding run data_def by (rule complete_check_patch)
  have d: "data_status data = ''completed''" by (simp add: data_def)
  from r have "snd (snd (run_pull_request_check B CONFIG USERS ST pr cr0 s))
      = snd s @ (pre @ mid @ [ApiPatch (cr_url cr) data])"
    by (simp add: mid(1) pre(1) split: prod.splits)
  moreover have "length (filter is_completion (pre @ mid @ [ApiPatch (cr_url cr) data])) = 1"
    using pre(2) no_write_no_completion [OF mid(2)] d by simp
  moreover from r have "fst (snd (run_pull_request_check B CONFIG USERS ST pr cr0 s))
          = snd (patch B (cr_url cr) data (fst s2))"
    by (simp split: prod.splits)
  moreover from r have "fst (run_pull_request_check B CONFIG USERS ST pr cr0 s)
          = (case fst (patch B (cr_url cr) data (fst s2)) of Inl e \<Rightarrow> Inl e | Inr h \<Rightarrow> Inr ())"
    by (simp split: prod.splits)
  ultimately show ?thesis
    using d by (intro exI [of _ "pre @ mid @ [ApiPatch (cr_url cr) data]"] exI [of _ data]
        exI [of _ "fst s2"]) simp
qed

lemma ex_ip_platform:
  "set_check_in_progress (platform_world rejects platform_items) example_pr None ([], [])
     = (Inr example_check_run,
        (''in_progress'',
         [ApiPost ''u/check-runs'' (In_progress ''Redmine issues'' ''topic'' ''abc'' ''t'')]))"
  by (simp add: set_check_in_progress_def platform_world_def example_pr_def call_def
      example_check_run_def CHECK_NAME_def)

theorem one_completion_witness:
  "fst (run_pull_request_check (platform_world False platform_items) example_CONFIG Map.empty
          example_Status example_pr None ([], [])) = Inr ()
   \<and> fst (snd (run_pull_request_check (platform_world False platform_items) example_CONFIG
          Map.empty example_Status example_pr None ([], []))) = ''completed''"
proof -
  from one_completion [OF ex_ip_platform, of False example_CONFIG Map.empty example_Status]
  obtain data w2 where
    d: "data_status data = ''completed''"
    and w: "fst (snd (run_pull_request_check (platform_world False platform_items) example_CONFIG
          Map.empty example_Status example_pr None ([], [])))
        = snd (patch (platform_world False platform_items) (cr_url example_check_run) data w2)"
    and r: "fst (run_pull_request_check (platform_world False platform_items) example_CONFIG
          Map.empty example_Status example_pr None ([], []))
        = (case fst (patch (platform_world False platform_items) (cr_url example_check_run)
                       data w2) of Inl e \<Rightarrow> Inl e | Inr h \<Rightarrow> Inr ())"
    by blast
  from d w r show ?thesis
    by (simp add: platform_world_def)
qed

text \<open>
  The claim C9 as stated fails: on a platform that answers the completing patch with an
  error, the run makes that patch and raises, and the check run stays \<^verbatim>\<open>in_progress\<close>.
\<close>

theorem one_completion_counterexample:
  "run_pull_request_check (platform_world True platform_items) example_CONFIG Map.empty
     example_Status example_pr None ([], [])
   = (Inl (BoundaryError ''502''),
      (''in_progress'',
       [ApiPost ''u/check-runs'' (In_progress ''Redmine issues'' ''topic'' ''abc'' ''t''),
        ApiGetitem ''u/pulls/1/commits'',
        VerifyIssues \<lparr>project = Some ''foo'', required = True, config_refs = {},
                       version_prefix = None\<rparr> {123},
        IssueSave 123 updates_123,
        ApiPatch ''u/check-runs/1''
          (Completed ''topic'' ''abc'' ''t'' ''success''
             \<lparr>output_title = ''Valid issues'',
              output_summary = ''* [#123: Crash](r/issues/123)'',
              output_text = None\<rparr>)]))"
  by code_simp

text \<open>
  C8. When the update of the tracker raises, the exception is logged and the run goes
  on to the final patch: the run returns what the final patch returns, and the patch
  carries the conclusion and output of the report, the same as when the update
  returns.
\<close>

theorem reconciliation_failure_swallowed:
  assumes ip: "set_check_in_progress B pr cr0 s = (Inr cr, s0)"
    and lp: "attempt_loop B CONFIG pr 3 [1..<3 + 1] s0 = (Inr (Some (iv, ic)), s1)"
    and up: "update_redmine_on_issues B USERS ST pr (valid_issues iv) s1 = (r, s2)"
  shows "run_pull_request_check B CONFIG USERS ST pr cr0 s
           = complete_check B pr cr (fst (report iv ic cr)) (snd (report iv ic cr))
               (case r of Inl e \<Rightarrow> log_exception ''Failed to update Redmine issues'' s2
                | Inr u \<Rightarrow> s2)
         \<and> final_report (snd (snd (run_pull_request_check B CONFIG USERS ST pr cr0 s)))
             = Some (report iv ic cr)
         \<and> ((\<exists>e. r = Inl e) \<longrightarrow>
              LogException ''Failed to update Redmine issues''
                \<in> set (snd (snd (run_pull_request_check B CONFIG USERS ST pr cr0 s))))"
proof -
  have run: "run_pull_request_check B CONFIG USERS ST pr cr0 s
           = complete_check B pr cr (fst (report iv ic cr)) (snd (report iv ic cr))
               (case r of Inl e \<Rightarrow> log_exception ''Failed to update Redmine issues'' s2
                | Inr u \<Rightarrow> s2)"
    using run_after_loop [OF ip lp, of USERS ST] up by (cases r) simp_all
  moreover have "final_report (snd (snd (run_pull_request_check B CONFIG USERS ST pr cr0 s)))
             = Some (report iv ic cr)"
    unfolding run complete_check_trace by (simp only: final_report_snoc prod.collapse)
  moreover have "(\<exists>e. r = Inl e) \<longrightarrow>
              LogException ''Failed to update Redmine issues''
                \<in> set (snd (snd (run_pull_request_check B CONFIG USERS ST pr cr0 s)))"
    unfolding run complete_check_trace by (auto simp: log_exception_def)
  ultimately show ?thesis by blast
qed

lemma ex_ip_save_fails:
  "set_check_in_progress world_save_fails example_pr None (0, [])
     = (Inr example_check_run, state_in_progress)"
  by code_simp

lemma ex_lp_save_fails:
  "attempt_loop world_save_fails example_CONFIG example_pr 3 [1..<3 + 1] state_in_progress
     = (Inr (Some (validation_123, [])), state_verified)"
  by code_simp

lemma ex_up_save_fails:
  "update_redmine_on_issues world_save_fails Map.empty example_Status example_pr
     (valid_issues validation_123) state_verified
     = (Inl (BoundaryError ''save''), state_saved)"
  by code_simp

theorem reconciliation_failure_swallowed_witness:
  "final_report (snd (snd (run_pull_request_check world_save_fails example_CONFIG Map.empty
       example_Status example_pr None (0, []))))
     = Some (''success'',
             \<lparr>output_title = ''Valid issues'',
              output_summary = ''* [#123: Crash](r/issues/123)'',
              output_text = None\<rparr>)
   \<and> LogException ''Failed to update Redmine issues''
       \<in> set (snd (snd (run_pull_request_check world_save_fails example_CONFIG Map.empty
            example_Status example_pr None (0, []))))"
proof -
  have "report validation_123 [] example_check_run
     = (''success'',
        \<lparr>output_title = ''Valid issues'',
         output_summary = ''* [#123: Crash](r/issues/123)'',
         output_text = None\<rparr>)"
    by code_simp
  moreover note reconciliation_failure_swallowed
    [OF ex_ip_save_fails ex_lp_save_fails ex_up_save_fails]
  ultimately show ?thesis by (metis (no_types))
qed

lemma get_issues_from_pr_unconfigured:
  "get_config CONFIG (pr_base_repo_full_name pr) = Inl e \<Longrightarrow>
   get_issues_from_pr B CONFIG pr s = (Inl e, s)"
  by (simp add: get_issues_from_pr_def)

lemma attempt_loop_unrolled:
  "attempt_loop B CONFIG pr 3 [1..<3 + 1] s0 =
     (let body = get_issues_from_pr B CONFIG pr;
          pause = (\<lambda>n st. do_sleep B n
                     (log_exception ''Failure during validation of PR (attempt %s)'' st));
          a1 = body s0;
          a2 = body (pause 1 (snd a1));
          a3 = body (pause 2 (snd a2))
      in case fst a1 of
           Inr v \<Rightarrow> (Inr (Some v), snd a1)
         | Inl e1 \<Rightarrow>
             (case fst a2 of
                Inr v \<Rightarrow> (Inr (Some v), snd a2)
              | Inl e2 \<Rightarrow>
                  (case fst a3 of
                     Inr v \<Rightarrow> (Inr (Some v), snd a3)
                   | Inl e3 \<Rightarrow> (Inl e3, snd a3))))"
proof -
  have xs: "[1..<3 + 1] = [1, 2, 3::nat]" by (simp add: upt_rec)
  obtain r1 t1 where a1: "get_issues_from_pr B CONFIG pr s0 = (r1, t1)"
    by (cases "get_issues_from_pr B CONFIG pr s0") auto
  obtain r2 t2 where a2: "get_issues_from_pr B CONFIG pr
      (do_sleep B 1 (log_exception ''Failure during validation of PR (attempt %s)'' t1))
      = (r2, t2)"
    by (cases "get_issues_from_pr B CONFIG pr
      (do_sleep B 1 (log_exception ''Failure during validation of PR (attempt %s)'' t1))") auto
  obtain r3 t3 where a3: "get_issues_from_pr B CONFIG pr
      (do_sleep B 2 (log_exception ''Failure during validation of PR (attempt %s)'' t2))
      = (r3, t3)"
    by (cases "get_issues_from_pr B CONFIG pr
      (do_sleep B 2 (log_exception ''Failure during validation of PR (attempt %s)'' t2))") auto
  show ?thesis
    unfolding xs Let_def attempt_loop.simps a1 snd_conv fst_conv a2 a3 prod.case
    by (cases r1; cases r2; cases r3) simp_all
qed

text \<open>
  C3, as the program has it. The body is run in the state that the start of the check
  run left. When it raises, whatever the exception, the failure is logged, the run
  sleeps 1 and the body is run again in the state that this leaves; when that raises
  too, the run sleeps 2 and the body is run a third time. The loop ends with the result
  of the first attempt that returns, or with the exception of the third attempt. So the
  sleeps are none, 1, or 1 and 2, and 1 and 2 when the loop ends with an exception. An
  unconfigured repository is retried like every other failure: three attempts, two
  logged failures and the sleeps 1 and 2, and only then the fixed report
  \<^verbatim>\<open>Unknown repository\<close>; every other exception of the third attempt gives
  \<^verbatim>\<open>Internal error while testing\<close>. Both have the conclusion \<^verbatim>\<open>failure\<close>.
\<close>

theorem retry_policy:
  assumes ip: "set_check_in_progress B pr cr0 s = (Inr cr, s0)"
    and lp: "attempt_loop B CONFIG pr 3 [1..<3 + 1] s0 = (res, s1)"
  shows "(let body = get_issues_from_pr B CONFIG pr;
              pause = (\<lambda>n st. do_sleep B n
                         (log_exception ''Failure during validation of PR (attempt %s)'' st));
              a1 = body s0;
              a2 = body (pause 1 (snd a1));
              a3 = body (pause 2 (snd a2))
          in (res, s1) =
               (case fst a1 of
                  Inr v \<Rightarrow> (Inr (Some v), snd a1)
                | Inl e1 \<Rightarrow>
                    (case fst a2 of
                       Inr v \<Rightarrow> (Inr (Some v), snd a2)
                     | Inl e2 \<Rightarrow>
                         (case fst a3 of
                            Inr v \<Rightarrow> (Inr (Some v), snd a3)
                          | Inl e3 \<Rightarrow> (Inl e3, snd a3)))))
      \<and> (\<exists>ev. snd s1 = snd s0 @ ev
      \<and> (sleeps_of ev = [] \<or> sleeps_of ev = [1] \<or> sleeps_of ev = [1, 2])
      \<and> ((\<exists>e. res = Inl e) \<longrightarrow> sleeps_of ev = [1, 2])
      \<and> (get_config CONFIG (pr_base_repo_full_name pr) = Inl UnconfiguredRepository \<longrightarrow>
           res = Inl UnconfiguredRepository
           \<and> ev = [LogException ''Failure during validation of PR (attempt %s)'', Sleep 1,
                   LogException ''Failure during validation of PR (attempt %s)'', Sleep 2])
      \<and> (res = Inl UnconfiguredRepository \<longrightarrow>
           final_report (snd (snd (run_pull_request_check B CONFIG USERS ST pr cr0 s)))
             = Some (''failure'', unknown_repository_output))
      \<and> ((\<exists>e. res = Inl e \<and> e \<noteq> UnconfiguredRepository) \<longrightarrow>
           final_report (snd (snd (run_pull_request_check B CONFIG USERS ST pr cr0 s)))
             = Some (''failure'', internal_error_output)))"
proof (rule conjI)
  show "(let body = get_issues_from_pr B CONFIG pr;
              pause = (\<lambda>n st. do_sleep B n
                         (log_exception ''Failure during validation of PR (attempt %s)'' st));
              a1 = body s0;
              a2 = body (pause 1 (snd a1));
              a3 = body (pause 2 (snd a2))
          in (res, s1) =
               (case fst a1 of
                  Inr v \<Rightarrow> (Inr (Some v), snd a1)
                | Inl e1 \<Rightarrow>
                    (case fst a2 of
                       Inr v \<Rightarrow> (Inr (Some v), snd a2)
                     | Inl e2 \<Rightarrow>
                         (case fst a3 of
                            Inr v \<Rightarrow> (Inr (Some v), snd a3)
                          | Inl e3 \<Rightarrow> (Inl e3, snd a3)))))"
    using lp unfolding attempt_loop_unrolled Let_def by simp
next
  from loop_three [OF lp] obtain ev where
    ev: "snd s1 = snd s0 @ ev"
      "sleeps_of ev = [] \<or> sleeps_of ev = [1] \<or> sleeps_of ev = [1, 2]"
      "(\<exists>e. res = Inl e) \<longrightarrow> sleeps_of ev = [1, 2]"
    by blast
  have unconf: "res = Inl UnconfiguredRepository
           \<and> ev = [LogException ''Failure during validation of PR (attempt %s)'', Sleep 1,
                   LogException ''Failure during validation of PR (attempt %s)'', Sleep 2]"
    if "get_config CONFIG (pr_base_repo_full_name pr) = Inl UnconfiguredRepository"
  proof -
    have xs: "[1..<3 + 1] = [1, 2, 3::nat]" by (simp add: upt_rec)
    from lp ev(1) show ?thesis
      unfolding xs
      by (simp add: get_issues_from_pr_unconfigured [OF that] do_sleep_def log_exception_def)
        (auto simp: prod_eq_iff)
  qed
  from run_trace [OF ip lp, of USERS ST] obtain mid at where
    tr: "snd (snd (run_pull_request_check B CONFIG USERS ST pr cr0 s))
      = (snd s0 @ mid) @ [ApiPatch (cr_url cr) (Completed (pr_head_ref pr) (pr_head_sha pr) at
          (fst (loop_report res cr)) (snd (loop_report res cr)))]"
    by auto
  have fr: "final_report (snd (snd (run_pull_request_check B CONFIG USERS ST pr cr0 s)))
     = Some (loop_report res cr)"
    unfolding tr by (simp only: final_report_snoc prod.collapse)
  have a: "res = Inl UnconfiguredRepository \<longrightarrow>
           final_report (snd (snd (run_pull_request_check B CONFIG USERS ST pr cr0 s)))
             = Some (''failure'', unknown_repository_output)"
    unfolding fr by (simp add: loop_report_def)
  have b: "(\<exists>e. res = Inl e \<and> e \<noteq> UnconfiguredRepository) \<longrightarrow>
           final_report (snd (snd (run_pull_request_check B CONFIG USERS ST pr cr0 s)))
             = Some (''failure'', internal_error_output)"
    unfolding fr by (auto simp: loop_report_def split: exn.splits)
  from ev unconf a b show "\<exists>ev. snd s1 = snd s0 @ ev
      \<and> (sleeps_of ev = [] \<or> sleeps_of ev = [1] \<or> sleeps_of ev = [1, 2])
      \<and> ((\<exists>e. res = Inl e) \<longrightarrow> sleeps_of ev = [1, 2])
      \<and> (get_config CONFIG (pr_base_repo_full_name pr) = Inl UnconfiguredRepository \<longrightarrow>
           res = Inl UnconfiguredRepository
           \<and> ev = [LogException ''Failure during validation of PR (attempt %s)'', Sleep 1,
                   LogException ''Failure during validation of PR (attempt %s)'', Sleep 2])
      \<and> (res = Inl UnconfiguredRepository \<longrightarrow>
           final_report (snd (snd (run_pull_request_check B CONFIG USERS ST pr cr0 s)))
             = Some (''failure'', unknown_repository_output))
      \<and> ((\<exists>e. res = Inl e \<and> e \<noteq> UnconfiguredRepository) \<longrightarrow>
           final_report (snd (snd (run_pull_request_check B CONFIG USERS ST pr cr0 s)))
             = Some (''failure'', internal_error_output))"
    by (intro exI [of _ ev]) blast
qed

lemma ex_ip_unconfigured:
  "set_check_in_progress world_valid example_pr_unconfigured None (0, [])
     = (Inr example_check_run, state_in_progress)"
  by code_simp

lemma ex_lp_unconfigured:
  "attempt_loop world_valid Map.empty example_pr_unconfigured 3 [1..<3 + 1] state_in_progress
     = (Inl UnconfiguredRepository, state_retried)"
  by code_simp

lemma ex_flaky:
  "set_check_in_progress world_flaky example_pr None (0, [])
     = (Inr example_check_run, state_in_progress)"
  "attempt_loop world_flaky example_CONFIG example_pr 3 [1..<3 + 1] state_in_progress
     = (Inr (Some (validation_123, [])), state_flaky)"
  "fst (get_issues_from_pr world_flaky example_CONFIG example_pr state_in_progress)
     = Inl (BoundaryError ''timeout'')"
  by code_simp+

theorem retry_policy_witness:
  "get_config Map.empty (pr_base_repo_full_name example_pr_unconfigured)
     = Inl UnconfiguredRepository
   \<and> final_report (snd (snd (run_pull_request_check world_valid Map.empty Map.empty
         example_Status example_pr_unconfigured None (0, []))))
       = Some (''failure'', unknown_repository_output)
   \<and> fst (get_issues_from_pr world_flaky example_CONFIG example_pr state_in_progress)
       = Inl (BoundaryError ''timeout'')
   \<and> get_issues_from_pr world_flaky example_CONFIG example_pr
        (do_sleep world_flaky 1
           (log_exception ''Failure during validation of PR (attempt %s)''
              (snd (get_issues_from_pr world_flaky example_CONFIG example_pr state_in_progress))))
       = (Inr (validation_123, []), state_flaky)"
proof -
  have "get_config Map.empty (pr_base_repo_full_name example_pr_unconfigured)
     = Inl UnconfiguredRepository"
    by code_simp
  with retry_policy [OF ex_ip_unconfigured ex_lp_unconfigured, of Map.empty example_Status]
  have a: "get_config Map.empty (pr_base_repo_full_name example_pr_unconfigured)
     = Inl UnconfiguredRepository
   \<and> final_report (snd (snd (run_pull_request_check world_valid Map.empty Map.empty
         example_Status example_pr_unconfigured None (0, []))))
       = Some (''failure'', unknown_repository_output)"
    by blast
  have "fst (get_issues_from_pr world_flaky example_CONFIG example_pr
        (do_sleep world_flaky 1
           (log_exception ''Failure during validation of PR (attempt %s)''
              (snd (get_issues_from_pr world_flaky example_CONFIG example_pr state_in_progress)))))
       = Inr (validation_123, [])"
    by code_simp
  with retry_policy [OF ex_flaky(1,2), of Map.empty example_Status, THEN conjunct1] ex_flaky(3)
  have b: "get_issues_from_pr world_flaky example_CONFIG example_pr
        (do_sleep world_flaky 1
           (log_exception ''Failure during validation of PR (attempt %s)''
              (snd (get_issues_from_pr world_flaky example_CONFIG example_pr state_in_progress))))
       = (Inr (validation_123, []), state_flaky)"
    by (auto simp: Let_def prod_eq_iff)
  from a b ex_flaky(3) show ?thesis by blast
qed

text \<open>
  The claim C3 as stated fails: for a repository that is not configured and whose owner
  is not allowlisted, the run sleeps 1 and then 2 before it reports.
\<close>

theorem retry_unconfigured_counterexample:
  "get_config Map.empty (pr_base_repo_full_name example_pr_unconfigured)
     = Inl UnconfiguredRepository
   \<and> sleeps_of (snd (snd (run_pull_request_check world_valid Map.empty Map.empty
         example_Status example_pr_unconfigured None (0, [])))) = [1, 2]"
  by code_simp

subsection \<open>Reconciliation of the tracker\<close>

lemma issue_updates_after:
  assumes "issue_updates USERS ST pr issue = Inr (Some u)"
  shows "issue_updates USERS ST pr (apply_updates u issue) = Inr None
         \<or> issue_updates USERS ST pr (apply_updates u issue) = Inr (Some no_updates)"
proof -
  from assms obtain v where v: "Status ST (issue_status_id issue) = Inr v"
    by (auto simp: issue_updates_def Let_def split: sum.splits)
  then have vid: "v = issue_status_id issue"
    by (auto simp: Status_def split: if_splits)
  from assms v have nr: "\<not> is_rejected ST v"
    by (auto simp: issue_updates_def Let_def split: if_splits)
  from assms v nr have st: "status_id u =
      (if \<not> (is_closed ST v \<or> v = READY_FOR_TESTING ST) then Some (READY_FOR_TESTING ST) else None)"
    by (auto simp: issue_updates_def Let_def split: if_splits sum.splits option.splits)
  from assms v nr have asg: "assigned_to_id u =
      (if USERS (pr_user_login pr) \<noteq> None \<and> USERS (pr_user_login pr) \<noteq> Some 0
          \<and> issue_assigned_to issue = None
       then USERS (pr_user_login pr) else None)"
    by (auto simp: issue_updates_def Let_def split: if_splits sum.splits option.splits)
  define v' where "v' = issue_status_id (apply_updates u issue)"
  have v': "v' = (if \<not> (is_closed ST v \<or> v = READY_FOR_TESTING ST) then READY_FOR_TESTING ST else v)"
    by (simp add: v'_def apply_updates_def st vid)
  have sv': "Status ST v' = Inr v'"
    using v by (auto simp: v' Status_def vid split: if_splits)
  have closed': "is_closed ST v' \<or> v' = READY_FOR_TESTING ST"
    by (auto simp: v')
  have asg': "\<not> (USERS (pr_user_login pr) \<noteq> None \<and> USERS (pr_user_login pr) \<noteq> Some 0
          \<and> issue_assigned_to (apply_updates u issue) = None)"
    by (auto simp: apply_updates_def asg split: option.splits)
  have link: "\<not> pr_is_cherry_pick pr \<Longrightarrow>
      \<exists>fid val. issue_pr_field (apply_updates u issue) = Some (fid, val) \<and> pr_html_url pr \<in> set val"
    using assms v nr
    by (auto simp: issue_updates_def Let_def apply_updates_def
        split: if_splits sum.splits option.splits prod.splits)
  show ?thesis
  proof (cases "is_rejected ST v'")
    case True
    with sv' show ?thesis
      by (simp add: issue_updates_def Let_def v'_def [symmetric])
  next
    case False
    show ?thesis
    proof (cases "pr_is_cherry_pick pr")
      case True
      with False sv' closed' asg' show ?thesis
        by (auto simp: issue_updates_def Let_def v'_def [symmetric] no_updates_def)
    next
      case cp: False
      from link [OF cp] obtain fid val where
        "issue_pr_field (apply_updates u issue) = Some (fid, val)" "pr_html_url pr \<in> set val"
        by blast
      with cp False sv' closed' asg' show ?thesis
        by (auto simp: issue_updates_def Let_def v'_def [symmetric] no_updates_def)
    qed
  qed
qed

lemma update_issue_after:
  assumes "issue_updates USERS ST pr issue = Inr uo"
  shows "update_issue B USERS ST pr (after_update USERS ST pr issue) s = (Inr (), s)"
proof (cases uo)
  case None
  with assms show ?thesis by (simp add: after_update_def update_issue_def)
next
  case (Some u)
  with assms have a: "after_update USERS ST pr issue = apply_updates u issue"
    by (simp add: after_update_def)
  from issue_updates_after [of USERS ST pr issue u] assms Some show ?thesis
    unfolding a by (auto simp: update_issue_def)
qed

lemma update_issue_ok:
  assumes "update_issue B USERS ST pr issue s = (Inr (), s1)"
  shows "\<exists>uo. issue_updates USERS ST pr issue = Inr uo"
  using assms by (cases "issue_updates USERS ST pr issue") (auto simp: update_issue_def)

lemma update_issue_trace:
  assumes "update_issue B USERS ST pr issue s = (Inr (), s1)"
  shows "snd s1 = snd s @ expected_saves USERS ST pr [issue]"
proof -
  from update_issue_ok [OF assms] obtain uo where uo: "issue_updates USERS ST pr issue = Inr uo"
    by blast
  show ?thesis
  proof (cases uo)
    case None
    with uo assms show ?thesis
      by (auto simp: update_issue_def expected_saves_def List.map_filter_simps)
  next
    case (Some u)
    show ?thesis
    proof (cases "u = no_updates")
      case True
      with Some uo assms show ?thesis
        by (auto simp: update_issue_def expected_saves_def List.map_filter_simps)
    next
      case False
      with Some uo assms have "call (IssueSave (issue_id issue) u) (save B issue u) s = (Inr (), s1)"
        by (simp add: update_issue_def)
      from call_trace [OF this] Some uo False show ?thesis
        by (simp add: expected_saves_def List.map_filter_simps)
    qed
  qed
qed

lemma expected_saves_Cons:
  "expected_saves USERS ST pr (issue # issues)
     = expected_saves USERS ST pr [issue] @ expected_saves USERS ST pr issues"
  by (simp add: expected_saves_def List.map_filter_simps split: option.splits)

lemma first_pass:
  "update_redmine_on_issues B USERS ST pr issues s = (Inr (), s1) \<Longrightarrow>
   snd s1 = snd s @ expected_saves USERS ST pr issues
   \<and> (\<forall>issue \<in> set issues. \<exists>uo. issue_updates USERS ST pr issue = Inr uo)"
proof (induction issues arbitrary: s)
  case Nil
  then show ?case by (simp add: expected_saves_def List.map_filter_simps)
next
  case (Cons issue issues)
  obtain r sa where c: "update_issue B USERS ST pr issue s = (r, sa)"
    by (cases "update_issue B USERS ST pr issue s") auto
  with Cons.prems have r: "r = Inr ()" by (cases r) auto
  with c Cons.prems have l: "update_redmine_on_issues B USERS ST pr issues sa = (Inr (), s1)"
    by simp
  from c r have c': "update_issue B USERS ST pr issue s = (Inr (), sa)" by simp
  from Cons.IH [OF l] update_issue_trace [OF c'] update_issue_ok [OF c'] show ?case
    by (subst expected_saves_Cons) auto
qed

lemma second_pass:
  "\<forall>issue \<in> set issues. \<exists>uo. issue_updates USERS ST pr issue = Inr uo \<Longrightarrow>
   update_redmine_on_issues B USERS ST pr (map (after_update USERS ST pr) issues) s = (Inr (), s)"
proof (induction issues)
  case Nil
  then show ?case by simp
next
  case (Cons issue issues)
  then obtain uo where "issue_updates USERS ST pr issue = Inr uo" by auto
  from update_issue_after [OF this, of B s] Cons show ?case by simp
qed

lemma in_sync_no_saves:
  "\<forall>issue \<in> set issues. issue_updates USERS ST pr issue = Inr None
       \<or> issue_updates USERS ST pr issue = Inr (Some no_updates) \<Longrightarrow>
   update_redmine_on_issues B USERS ST pr issues s = (Inr (), s)"
proof (induction issues)
  case Nil
  then show ?case by simp
next
  case (Cons issue issues)
  then have "update_issue B USERS ST pr issue s = (Inr (), s)"
    by (auto simp: update_issue_def)
  with Cons show ?case by simp
qed

text \<open>
  C7. A pass over the issues that raises nothing makes exactly the saves of
  \<open>expected_saves\<close>: for each issue one save carrying all of its changes (linked pull
  requests, assignee, status) when there is any change, and none otherwise, in order. A
  second pass on the same pull request, over the issues as the tracker holds them after
  the first, makes no call at all. And a pass over issues that are all in sync (a
  rejected status, or no change to make) makes no call.
\<close>

theorem reconciliation_idempotent:
  "(update_redmine_on_issues B USERS ST pr issues s = (Inr (), s1) \<longrightarrow>
      snd s1 = snd s @ expected_saves USERS ST pr issues
      \<and> update_redmine_on_issues B2 USERS ST pr (map (after_update USERS ST pr) issues) s2
          = (Inr (), s2))
   \<and> ((\<forall>issue \<in> set issues. issue_updates USERS ST pr issue = Inr None
          \<or> issue_updates USERS ST pr issue = Inr (Some no_updates)) \<longrightarrow>
        update_redmine_on_issues B USERS ST pr issues s = (Inr (), s))"
  using first_pass [of B USERS ST pr issues s s1] second_pass [of issues USERS ST pr B2 s2]
    in_sync_no_saves [of issues USERS ST pr B s]
  by blast

theorem reconciliation_idempotent_witness:
  "update_redmine_on_issues world_valid Map.empty example_Status example_pr [issue_123]
       state_verified = (Inr (), state_saved)
   \<and> snd state_saved = snd state_verified @ [IssueSave 123 updates_123]
   \<and> update_redmine_on_issues world_valid Map.empty example_Status example_pr
        (map (after_update Map.empty example_Status example_pr) [issue_123]) state_saved
       = (Inr (), state_saved)"
proof -
  have 1: "update_redmine_on_issues world_valid Map.empty example_Status example_pr [issue_123]
       state_verified = (Inr (), state_saved)"
    by code_simp
  have 2: "expected_saves Map.empty example_Status example_pr [issue_123]
       = [IssueSave 123 updates_123]"
    by code_simp
  from 1 2 reconciliation_idempotent [of world_valid Map.empty example_Status example_pr
      "[issue_123]" state_verified state_saved world_valid state_saved]
  show ?thesis by simp
qed

subsection \<open>A merged pull request\<close>

lemma foldl_fixes:
  "foldl (\<lambda>ids commit. ids \<union> fixes commit) A commits = A \<union> \<Union> (fixes ` set commits)"
  by (induction commits arbitrary: A) auto

lemma set_fixed_all_trace:
  "set_fixed_all B proj v issues s = (r, s') \<Longrightarrow>
   \<exists>k. snd s' = snd s @ map (\<lambda>issue. SetFixedInVersion (issue_id issue) v)
                          (take k (merge_targets proj issues))
       \<and> (r = Inr () \<longrightarrow> k = length (merge_targets proj issues))"
proof (induction issues arbitrary: s)
  case Nil
  then show ?case by (auto simp: merge_targets_def)
next
  case (Cons issue issues)
  show ?case
  proof (cases "project_id (issue_project issue) = project_id proj")
    case False
    with Cons.prems have "set_fixed_all B proj v issues s = (r, s')" by simp
    from Cons.IH [OF this] False show ?thesis by (simp add: merge_targets_def)
  next
    case True
    obtain r1 s1 where c: "call (SetFixedInVersion (issue_id issue) v)
        (set_fixed_in_version B issue v) s = (r1, s1)"
      by (cases "call (SetFixedInVersion (issue_id issue) v) (set_fixed_in_version B issue v) s") auto
    note t = call_trace [OF c]
    show ?thesis
    proof (cases r1)
      case (Inl e)
      with True c Cons.prems have "r = Inl e" "s' = s1" by auto
      with t True show ?thesis
        by (intro exI [of _ 1]) (simp add: merge_targets_def)
    next
      case (Inr u)
      with True c Cons.prems have "set_fixed_all B proj v issues s1 = (r, s')" by simp
      from Cons.IH [OF this] obtain k where
        k: "snd s' = snd s1 @ map (\<lambda>issue. SetFixedInVersion (issue_id issue) v)
                          (take k (merge_targets proj issues))"
          "r = Inr () \<longrightarrow> k = length (merge_targets proj issues)"
        by blast
      with t True show ?thesis
        by (intro exI [of _ "Suc k"]) (simp add: merge_targets_def)
    qed
  qed
qed


lemma set_fixed_all_accepted:
  "\<forall>issue \<in> set (merge_targets proj issues). \<forall>w. fst (set_fixed_in_version B issue v w) = Inr () \<Longrightarrow>
   set_fixed_all B proj v issues s =
     (Inr (),
      (foldl (\<lambda>w issue. snd (set_fixed_in_version B issue v w)) (fst s) (merge_targets proj issues),
       snd s @ map (\<lambda>issue. SetFixedInVersion (issue_id issue) v) (merge_targets proj issues)))"
proof (induction issues arbitrary: s)
  case Nil
  then show ?case by (simp add: merge_targets_def)
next
  case (Cons issue issues)
  show ?case
  proof (cases "project_id (issue_project issue) = project_id proj")
    case False
    with Cons.prems have "\<forall>issue \<in> set (merge_targets proj issues).
        \<forall>w. fst (set_fixed_in_version B issue v w) = Inr ()"
      by (simp add: merge_targets_def)
    from Cons.IH [OF this, of s] False show ?thesis by (simp add: merge_targets_def)
  next
    case True
    with Cons.prems have acc: "fst (set_fixed_in_version B issue v (fst s)) = Inr ()"
      and rest: "\<forall>issue \<in> set (merge_targets proj issues).
        \<forall>w. fst (set_fixed_in_version B issue v w) = Inr ()"
      by (simp_all add: merge_targets_def)
    from acc have c: "call (SetFixedInVersion (issue_id issue) v)
        (set_fixed_in_version B issue v) s
      = (Inr (), (snd (set_fixed_in_version B issue v (fst s)),
                  snd s @ [SetFixedInVersion (issue_id issue) v]))"
      by (cases "set_fixed_in_version B issue v (fst s)") (simp add: call_def)
    from Cons.IH [OF rest] True c show ?thesis
      by (simp add: merge_targets_def)
  qed
qed

lemma get_commits_trace:
  assumes "get_commits_from_pull_request B pr s = (r, s1)"
  shows "snd s1 = snd s @ [ApiGetitem (pr_commits_url pr)]"
proof -
  obtain r0 s0 where c: "call (ApiGetitem (pr_commits_url pr)) (getitem B (pr_commits_url pr)) s = (r0, s0)"
    by (cases "call (ApiGetitem (pr_commits_url pr)) (getitem B (pr_commits_url pr)) s") auto
  from assms c have "s1 = s0"
    by (cases r0) (auto simp: get_commits_from_pull_request_def)
  with call_trace [OF c] show ?thesis by simp
qed

lemma branch_version_prefix_None:
  "branch_version_prefix b = None \<longleftrightarrow>
     \<not> (endswith b ''-stable''
        \<or> b \<in> {''main'', ''master'', ''develop'', ''deb/develop'', ''rpm/develop''})"
  by (simp add: branch_version_prefix_def)

text \<open>The handler along the path on which it fetches the commits.\<close>

lemma on_pr_merge_path:
  assumes m: "pr_merged pr"
    and b: "branch_version_prefix (pr_base_ref pr) = Some bp"
    and c: "get_config CONFIG (pr_base_repo_full_name pr) = Inr config"
    and p: "project config = Some key" "key \<noteq> []"
    and g: "get_commits_from_pull_request B pr s = (rc, s1)"
  shows "on_pr_merge B CONFIG pr s =
     (case rc of
        Inl e \<Rightarrow> (Inl e, s1)
      | Inr commits \<Rightarrow>
          if \<Union> (fixes ` set commits) = {} then (Inr (), s1)
          else
            (case call (ProjectGet key) (project_get B key) s1 of
               (Inl e, s2) \<Rightarrow> (Inl e, s2)
             | (Inr proj, s2) \<Rightarrow>
                 (case call (GetLatestOpenVersion proj
                               ((case version_prefix config of None \<Rightarrow> [] | Some q \<Rightarrow> q) @ bp))
                         (get_latest_open_version B proj
                               ((case version_prefix config of None \<Rightarrow> [] | Some q \<Rightarrow> q) @ bp)) s2 of
                    (Inl e, s3) \<Rightarrow> (Inl e, s3)
                  | (Inr None, s3) \<Rightarrow> (Inr (), s3)
                  | (Inr (Some v), s3) \<Rightarrow>
                      (case call (GetIssues (\<Union> (fixes ` set commits)))
                              (get_issues B (\<Union> (fixes ` set commits))) s3 of
                         (Inl e, s4) \<Rightarrow> (Inl e, s4)
                       | (Inr issues, s4) \<Rightarrow> set_fixed_all B proj v issues s4))))"
proof -
  have pre: "(if version_prefix cfg = None \<or> version_prefix cfg = Some []
        then x else the (version_prefix cfg) @ x)
     = (case version_prefix cfg of None \<Rightarrow> [] | Some q \<Rightarrow> q) @ x"
    for x :: string and cfg :: Config
    by (cases "version_prefix cfg") auto
  have ids: "foldl (\<lambda>ids commit. ids \<union> fixes commit) {} commits = \<Union> (fixes ` set commits)"
    for commits :: "Commit list"
    by (simp add: foldl_fixes)
  show ?thesis
  proof (cases rc)
    case (Inl e)
    with m b c p g show ?thesis
      by (simp add: on_pr_merge_def)
  next
    case (Inr commits)
    with m b c p g show ?thesis
      unfolding on_pr_merge_def Let_def ids pre
      by simp
  qed
qed


lemma on_pr_merge_off_path:
  assumes "\<not> (pr_merged pr \<and> branch_version_prefix (pr_base_ref pr) \<noteq> None
            \<and> (\<exists>config key. get_config CONFIG (pr_base_repo_full_name pr) = Inr config
                  \<and> project config = Some key \<and> key \<noteq> []))"
  shows "snd (on_pr_merge B CONFIG pr s) = s"
proof (cases "pr_merged pr \<and> branch_version_prefix (pr_base_ref pr) \<noteq> None")
  case False
  then show ?thesis by (auto simp: on_pr_merge_def Let_def)
next
  case True
  then obtain bp where bp: "pr_merged pr" "branch_version_prefix (pr_base_ref pr) = Some bp"
    by auto
  show ?thesis
  proof (cases "get_config CONFIG (pr_base_repo_full_name pr)")
    case (Inl e)
    with bp show ?thesis by (simp add: on_pr_merge_def Let_def)
  next
    case (Inr config)
    with assms bp have "project config = None \<or> project config = Some []"
      by (cases "project config") auto
    with Inr bp show ?thesis by (auto simp: on_pr_merge_def Let_def)
  qed
qed

lemma on_pr_merge_events:
  "\<exists>ev. snd (snd (on_pr_merge B CONFIG pr s)) = snd s @ ev
     \<and> (\<forall>e \<in> set ev. \<not> is_check_write e)
     \<and> ((\<exists>e \<in> set ev. is_set_fixed e) \<longrightarrow>
          pr_merged pr \<and> branch_version_prefix (pr_base_ref pr) \<noteq> None
          \<and> (\<exists>config key. get_config CONFIG (pr_base_repo_full_name pr) = Inr config
                \<and> project config = Some key \<and> key \<noteq> []))"
proof (cases "pr_merged pr \<and> branch_version_prefix (pr_base_ref pr) \<noteq> None
            \<and> (\<exists>config key. get_config CONFIG (pr_base_repo_full_name pr) = Inr config
                  \<and> project config = Some key \<and> key \<noteq> [])")
  case False
  from on_pr_merge_off_path [OF False, of B s] show ?thesis
    by (intro exI [of _ "[]"]) simp
next
  case True
  then obtain bp config key where on: "pr_merged pr"
    "branch_version_prefix (pr_base_ref pr) = Some bp"
    "get_config CONFIG (pr_base_repo_full_name pr) = Inr config"
    "project config = Some key" "key \<noteq> []"
    by auto
  obtain rc s1 where g: "get_commits_from_pull_request B pr s = (rc, s1)"
    by (cases "get_commits_from_pull_request B pr s") auto
  note path = on_pr_merge_path [OF on g]
  note t1 = get_commits_trace [OF g]
  have goal: "\<exists>ev. snd s' = snd s @ ev \<and> (\<forall>e \<in> set ev. \<not> is_check_write e)
     \<and> ((\<exists>e \<in> set ev. is_set_fixed e) \<longrightarrow>
          pr_merged pr \<and> branch_version_prefix (pr_base_ref pr) \<noteq> None
          \<and> (\<exists>config key. get_config CONFIG (pr_base_repo_full_name pr) = Inr config
                \<and> project config = Some key \<and> key \<noteq> []))"
    if "snd s' = snd s1 @ ev'" "\<forall>e \<in> set ev'. \<not> is_check_write e" for s' :: "'a state" and ev'
    using that t1 True by (intro exI [of _ "ApiGetitem (pr_commits_url pr) # ev'"]) auto
  show ?thesis
  proof (cases rc)
    case (Inl e)
    with path show ?thesis by (intro goal [of _ "[]"]) simp_all
  next
    case (Inr commits)
    let ?ids = "\<Union> (fixes ` set commits)"
    show ?thesis
    proof (cases "?ids = {}")
      case True
      with Inr path show ?thesis by (intro goal [of _ "[]"]) simp_all
    next
      case False
      obtain r2 s2 where c2: "call (ProjectGet key) (project_get B key) s1 = (r2, s2)"
        by (cases "call (ProjectGet key) (project_get B key) s1") auto
      note t2 = call_trace [OF c2]
      show ?thesis
      proof (cases r2)
        case (Inl e)
        with Inr False path c2 t2 show ?thesis
          by (intro goal [of _ "[ProjectGet key]"]) simp_all
      next
        case proj: (Inr proj)
        let ?prefix = "(case version_prefix config of None \<Rightarrow> [] | Some q \<Rightarrow> q) @ bp"
        obtain r3 s3 where c3: "call (GetLatestOpenVersion proj ?prefix)
            (get_latest_open_version B proj ?prefix) s2 = (r3, s3)"
          by (cases "call (GetLatestOpenVersion proj ?prefix)
            (get_latest_open_version B proj ?prefix) s2") auto
        note t3 = call_trace [OF c3]
        show ?thesis
        proof (cases r3)
          case (Inl e)
          with Inr False path c2 t2 proj c3 t3 show ?thesis
            by (intro goal [of _ "[ProjectGet key, GetLatestOpenVersion proj ?prefix]"]) simp_all
        next
          case vo: (Inr vo)
          show ?thesis
          proof (cases vo)
            case None
            with Inr False path c2 t2 proj c3 t3 vo show ?thesis
              by (intro goal [of _ "[ProjectGet key, GetLatestOpenVersion proj ?prefix]"]) simp_all
          next
            case (Some v)
            obtain r4 s4 where c4: "call (GetIssues ?ids) (get_issues B ?ids) s3 = (r4, s4)"
              by (cases "call (GetIssues ?ids) (get_issues B ?ids) s3") auto
            note t4 = call_trace [OF c4]
            show ?thesis
            proof (cases r4)
              case (Inl e)
              with Inr False path c2 t2 proj c3 t3 vo Some c4 t4 show ?thesis
                by (intro goal [of _ "[ProjectGet key, GetLatestOpenVersion proj ?prefix,
                      GetIssues ?ids]"]) simp_all
            next
              case issues: (Inr issues)
              obtain r5 s5 where c5: "set_fixed_all B proj v issues s4 = (r5, s5)"
                by (cases "set_fixed_all B proj v issues s4") auto
              from set_fixed_all_trace [OF c5] obtain k where
                t5: "snd s5 = snd s4 @ map (\<lambda>issue. SetFixedInVersion (issue_id issue) v)
                          (take k (merge_targets proj issues))"
                by blast
              from Inr False path c2 proj c3 vo Some c4 issues c5
              have "on_pr_merge B CONFIG pr s = (r5, s5)" by auto
              with t2 t3 t4 t5 show ?thesis
                by (intro goal [of _ "[ProjectGet key, GetLatestOpenVersion proj ?prefix,
                      GetIssues ?ids] @ map (\<lambda>issue. SetFixedInVersion (issue_id issue) v)
                          (take k (merge_targets proj issues))"]) auto
            qed
          qed
        qed
      qed
    qed
  qed
qed

text \<open>
  C6. \<^verbatim>\<open>on_pr_merge\<close> does nothing at all (no call, normal return) unless the pull request is
  merged and its base branch ends in \<^verbatim>\<open>-stable\<close> or is one of \<^verbatim>\<open>main\<close>, \<^verbatim>\<open>master\<close>,
  \<^verbatim>\<open>develop\<close>, \<^verbatim>\<open>deb/develop\<close>, \<^verbatim>\<open>rpm/develop\<close>, and nothing when the configuration has
  no project. It never writes to a check run, and it sets a fix version only on that
  path with a project configured. On that path the issue numbers are those of the
  \<^verbatim>\<open>fixes\<close> sets of the commits alone; the version prefix is the configured prefix followed
  by the branch name without \<^verbatim>\<open>-stable\<close> and a dot (nothing for a development branch);
  with no issue number, or with no open version, it returns without a write; otherwise
  the writes are \<^verbatim>\<open>set_fixed_in_version\<close>, with the version found, on the issues returned
  whose project is the configured one, in order, up to the first that raises. When the
  tracker accepts these writes, every such issue gets the version: the handler makes
  the write for each of them, returns, and leaves the world in the state in which these
  writes leave it.
\<close>

theorem on_pr_merge_flow:
  "(\<not> pr_merged pr
      \<or> \<not> (endswith (pr_base_ref pr) ''-stable''
           \<or> pr_base_ref pr \<in> {''main'', ''master'', ''develop'', ''deb/develop'', ''rpm/develop''})
      \<or> (\<exists>config. get_config CONFIG (pr_base_repo_full_name pr) = Inr config
            \<and> project config = None)
    \<longrightarrow> on_pr_merge B CONFIG pr s = (Inr (), s))
   \<and> (\<exists>ev. snd (snd (on_pr_merge B CONFIG pr s)) = snd s @ ev
         \<and> (\<forall>e \<in> set ev. \<not> is_check_write e)
         \<and> ((\<exists>e \<in> set ev. is_set_fixed e) \<longrightarrow>
              pr_merged pr
              \<and> (endswith (pr_base_ref pr) ''-stable''
                 \<or> pr_base_ref pr \<in> {''main'', ''master'', ''develop'', ''deb/develop'', ''rpm/develop''})
              \<and> (\<exists>config key. get_config CONFIG (pr_base_repo_full_name pr) = Inr config
                    \<and> project config = Some key \<and> key \<noteq> [])))
   \<and> (pr_merged pr
        \<and> (endswith (pr_base_ref pr) ''-stable''
           \<or> pr_base_ref pr \<in> {''main'', ''master'', ''develop'', ''deb/develop'', ''rpm/develop''})
        \<and> get_config CONFIG (pr_base_repo_full_name pr) = Inr config
        \<and> project config = Some key \<and> key \<noteq> []
        \<and> get_commits_from_pull_request B pr s = (Inr commits, s1)
        \<and> ids = \<Union> (fixes ` set commits)
        \<and> prefix = (case version_prefix config of None \<Rightarrow> [] | Some q \<Rightarrow> q)
                    @ (if endswith (pr_base_ref pr) ''-stable''
                       then strip_suffix (pr_base_ref pr) ''-stable'' @ ''.'' else [])
      \<longrightarrow> (ids = {} \<longrightarrow> on_pr_merge B CONFIG pr s = (Inr (), s1))
        \<and> (ids \<noteq> {}
             \<and> call (ProjectGet key) (project_get B key) s1 = (Inr proj, s2)
             \<and> call (GetLatestOpenVersion proj prefix) (get_latest_open_version B proj prefix) s2
                 = (Inr vo, s3)
           \<longrightarrow> (vo = None \<longrightarrow> on_pr_merge B CONFIG pr s = (Inr (), s3))
             \<and> (vo = Some v \<and> call (GetIssues ids) (get_issues B ids) s3 = (Inr issues, s4)
                 \<longrightarrow> (\<exists>k. snd (snd (on_pr_merge B CONFIG pr s))
                            = snd s4 @ map (\<lambda>issue. SetFixedInVersion (issue_id issue) v)
                                         (take k (merge_targets proj issues))
                        \<and> (fst (on_pr_merge B CONFIG pr s) = Inr ()
                             \<longrightarrow> k = length (merge_targets proj issues)))
                   \<and> ((\<forall>issue \<in> set (merge_targets proj issues).
                          \<forall>w. fst (set_fixed_in_version B issue v w) = Inr ())
                        \<longrightarrow> on_pr_merge B CONFIG pr s =
                              (Inr (),
                               (foldl (\<lambda>w issue. snd (set_fixed_in_version B issue v w)) (fst s4)
                                  (merge_targets proj issues),
                                snd s4 @ map (\<lambda>issue. SetFixedInVersion (issue_id issue) v)
                                           (merge_targets proj issues)))))))"
proof (intro conjI impI)
  assume a: "\<not> pr_merged pr
      \<or> \<not> (endswith (pr_base_ref pr) ''-stable''
           \<or> pr_base_ref pr \<in> {''main'', ''master'', ''develop'', ''deb/develop'', ''rpm/develop''})
      \<or> (\<exists>config. get_config CONFIG (pr_base_repo_full_name pr) = Inr config
            \<and> project config = None)"
  then have "\<not> (pr_merged pr \<and> branch_version_prefix (pr_base_ref pr) \<noteq> None
            \<and> (\<exists>config key. get_config CONFIG (pr_base_repo_full_name pr) = Inr config
                  \<and> project config = Some key \<and> key \<noteq> []))"
    unfolding branch_version_prefix_None by auto
  from on_pr_merge_off_path [OF this, of B s] have s: "snd (on_pr_merge B CONFIG pr s) = s" .
  from a have "fst (on_pr_merge B CONFIG pr s) = Inr ()"
    by (auto simp: on_pr_merge_def Let_def branch_version_prefix_def split: option.splits)
  with s show "on_pr_merge B CONFIG pr s = (Inr (), s)"
    by (simp add: prod_eq_iff)
next
  from on_pr_merge_events [of B CONFIG pr s]
  show "\<exists>ev. snd (snd (on_pr_merge B CONFIG pr s)) = snd s @ ev
         \<and> (\<forall>e \<in> set ev. \<not> is_check_write e)
         \<and> ((\<exists>e \<in> set ev. is_set_fixed e) \<longrightarrow>
              pr_merged pr
              \<and> (endswith (pr_base_ref pr) ''-stable''
                 \<or> pr_base_ref pr \<in> {''main'', ''master'', ''develop'', ''deb/develop'', ''rpm/develop''})
              \<and> (\<exists>config key. get_config CONFIG (pr_base_repo_full_name pr) = Inr config
                    \<and> project config = Some key \<and> key \<noteq> []))"
    unfolding branch_version_prefix_None by simp
next
  assume a: "pr_merged pr
        \<and> (endswith (pr_base_ref pr) ''-stable''
           \<or> pr_base_ref pr \<in> {''main'', ''master'', ''develop'', ''deb/develop'', ''rpm/develop''})
        \<and> get_config CONFIG (pr_base_repo_full_name pr) = Inr config
        \<and> project config = Some key \<and> key \<noteq> []
        \<and> get_commits_from_pull_request B pr s = (Inr commits, s1)
        \<and> ids = \<Union> (fixes ` set commits)
        \<and> prefix = (case version_prefix config of None \<Rightarrow> [] | Some q \<Rightarrow> q)
                    @ (if endswith (pr_base_ref pr) ''-stable''
                       then strip_suffix (pr_base_ref pr) ''-stable'' @ ''.'' else [])"
  define bp where "bp = (if endswith (pr_base_ref pr) ''-stable''
                       then strip_suffix (pr_base_ref pr) ''-stable'' @ ''.'' else [])"
  from a have b: "branch_version_prefix (pr_base_ref pr) = Some bp"
    by (auto simp: branch_version_prefix_def bp_def)
  from a have on: "pr_merged pr" "get_config CONFIG (pr_base_repo_full_name pr) = Inr config"
    "project config = Some key" "key \<noteq> []"
    "get_commits_from_pull_request B pr s = (Inr commits, s1)" by auto
  from a have ids: "ids = \<Union> (fixes ` set commits)"
    and prefix: "prefix = (case version_prefix config of None \<Rightarrow> [] | Some q \<Rightarrow> q) @ bp"
    by (auto simp: bp_def)
  note path = on_pr_merge_path [OF on(1) b on(2-5), unfolded sum.case, folded ids prefix]
  {
    assume "ids = {}"
    with path show "on_pr_merge B CONFIG pr s = (Inr (), s1)" by simp
  next
    assume c: "ids \<noteq> {}
             \<and> call (ProjectGet key) (project_get B key) s1 = (Inr proj, s2)
             \<and> call (GetLatestOpenVersion proj prefix) (get_latest_open_version B proj prefix) s2
                 = (Inr vo, s3)"
    {
      assume "vo = None"
      with path c show "on_pr_merge B CONFIG pr s = (Inr (), s3)" by simp
    next
      assume d: "vo = Some v \<and> call (GetIssues ids) (get_issues B ids) s3 = (Inr issues, s4)"
      with path c have run: "on_pr_merge B CONFIG pr s = set_fixed_all B proj v issues s4"
        by simp
      obtain r5 s5 where c5: "set_fixed_all B proj v issues s4 = (r5, s5)"
        by (cases "set_fixed_all B proj v issues s4") auto
      from set_fixed_all_trace [OF c5] run c5
      show "\<exists>k. snd (snd (on_pr_merge B CONFIG pr s))
                            = snd s4 @ map (\<lambda>issue. SetFixedInVersion (issue_id issue) v)
                                         (take k (merge_targets proj issues))
                        \<and> (fst (on_pr_merge B CONFIG pr s) = Inr ()
                             \<longrightarrow> k = length (merge_targets proj issues))"
        by simp
    next
      assume d: "vo = Some v \<and> call (GetIssues ids) (get_issues B ids) s3 = (Inr issues, s4)"
      assume acc: "\<forall>issue \<in> set (merge_targets proj issues).
          \<forall>w. fst (set_fixed_in_version B issue v w) = Inr ()"
      from d path c have run: "on_pr_merge B CONFIG pr s = set_fixed_all B proj v issues s4"
        by simp
      show "on_pr_merge B CONFIG pr s =
              (Inr (),
               (foldl (\<lambda>w issue. snd (set_fixed_in_version B issue v w)) (fst s4)
                  (merge_targets proj issues),
                snd s4 @ map (\<lambda>issue. SetFixedInVersion (issue_id issue) v)
                           (merge_targets proj issues)))"
        unfolding run by (rule set_fixed_all_accepted [OF acc])
    }
  }
qed

theorem on_pr_merge_flow_witness:
  "on_pr_merge world_merge example_CONFIG (example_pr\<lparr>pr_base_ref := ''feature''\<rparr>) (0, [])
     = (Inr (), (0, []))
   \<and> on_pr_merge world_merge example_CONFIG example_pr_stable (0, [])
       = (Inr (),
          (1, [ApiGetitem ''u/pulls/1/commits'', ProjectGet ''foo'',
               GetLatestOpenVersion project_foo ''3.0.'', GetIssues {123},
               SetFixedInVersion 123 ''3.0.5'']))"
proof -
  have 1: "\<not> (endswith (pr_base_ref (example_pr\<lparr>pr_base_ref := ''feature''\<rparr>)) ''-stable''
      \<or> pr_base_ref (example_pr\<lparr>pr_base_ref := ''feature''\<rparr>)
          \<in> {''main'', ''master'', ''develop'', ''deb/develop'', ''rpm/develop''})"
    by code_simp
  have 2: "pr_merged example_pr_stable
        \<and> (endswith (pr_base_ref example_pr_stable) ''-stable''
           \<or> pr_base_ref example_pr_stable
               \<in> {''main'', ''master'', ''develop'', ''deb/develop'', ''rpm/develop''})
        \<and> get_config example_CONFIG (pr_base_repo_full_name example_pr_stable)
            = Inr \<lparr>project = Some ''foo'', required = True, config_refs = {},
                    version_prefix = None\<rparr>
        \<and> project \<lparr>project = Some ''foo'', required = True, config_refs = {},
                     version_prefix = None\<rparr> = Some ''foo'' \<and> ''foo'' \<noteq> []
        \<and> get_commits_from_pull_request world_merge example_pr_stable (0, [])
            = (Inr example_commits, state_merge 1)
        \<and> {123} = \<Union> (fixes ` set example_commits)
        \<and> ''3.0.'' = (case version_prefix \<lparr>project = Some ''foo'', required = True,
                          config_refs = {}, version_prefix = None\<rparr>
                       of None \<Rightarrow> [] | Some q \<Rightarrow> q)
                    @ (if endswith (pr_base_ref example_pr_stable) ''-stable''
                       then strip_suffix (pr_base_ref example_pr_stable) ''-stable'' @ ''.''
                       else [])"
    by code_simp
  have 3: "{123 :: int} \<noteq> {}
         \<and> call (ProjectGet ''foo'') (project_get world_merge ''foo'') (state_merge 1)
             = (Inr project_foo, state_merge 2)
         \<and> call (GetLatestOpenVersion project_foo ''3.0.'')
               (get_latest_open_version world_merge project_foo ''3.0.'') (state_merge 2)
             = (Inr (Some ''3.0.5''), state_merge 3)"
    by code_simp
  have 4: "Some ''3.0.5'' = Some ''3.0.5''
         \<and> call (GetIssues {123}) (get_issues world_merge {123}) (state_merge 3)
             = (Inr [issue_123], state_merge 4)"
    by code_simp
  from 1 on_pr_merge_flow [of "example_pr\<lparr>pr_base_ref := ''feature''\<rparr>" example_CONFIG
      world_merge "(0, [])"]
  have a: "on_pr_merge world_merge example_CONFIG (example_pr\<lparr>pr_base_ref := ''feature''\<rparr>)
      (0, []) = (Inr (), (0, []))"
    by blast
  from 2 3 4 on_pr_merge_flow [of example_pr_stable example_CONFIG world_merge "(0, [])"
      "\<lparr>project = Some ''foo'', required = True, config_refs = {}, version_prefix = None\<rparr>"
      "''foo''" example_commits "state_merge 1" "{123}" "''3.0.''" project_foo "state_merge 2"
      "Some ''3.0.5''" "state_merge 3" "''3.0.5''" "[issue_123]" "state_merge 4"]
  have b: "(\<forall>issue \<in> set (merge_targets project_foo [issue_123]).
              \<forall>w. fst (set_fixed_in_version world_merge issue ''3.0.5'' w) = Inr ())
          \<longrightarrow> on_pr_merge world_merge example_CONFIG example_pr_stable (0, [])
              = (Inr (),
                 (foldl (\<lambda>w issue. snd (set_fixed_in_version world_merge issue ''3.0.5'' w))
                    (fst (state_merge 4)) (merge_targets project_foo [issue_123]),
                  snd (state_merge 4)
                  @ map (\<lambda>issue. SetFixedInVersion (issue_id issue) ''3.0.5'')
                      (merge_targets project_foo [issue_123])))"
    by blast
  have 5: "\<forall>issue \<in> set (merge_targets project_foo [issue_123]).
              \<forall>w. fst (set_fixed_in_version world_merge issue ''3.0.5'' w) = Inr ()"
    by (simp add: world_merge_def example_world_def)
  have 6: "merge_targets project_foo [issue_123] = [issue_123]"
    by (simp add: merge_targets_def issue_123_def)
  from b 5 have "on_pr_merge world_merge example_CONFIG example_pr_stable (0, [])
      = (Inr (),
         (foldl (\<lambda>w issue. snd (set_fixed_in_version world_merge issue ''3.0.5'' w))
            (fst (state_merge 4)) [issue_123],
          snd (state_merge 4)
          @ map (\<lambda>issue. SetFixedInVersion (issue_id issue) ''3.0.5'') [issue_123]))"
    unfolding 6 by blast
  then have c: "on_pr_merge world_merge example_CONFIG example_pr_stable (0, [])
       = (Inr (),
          (1, [ApiGetitem ''u/pulls/1/commits'', ProjectGet ''foo'',
               GetLatestOpenVersion project_foo ''3.0.'', GetIssues {123},
               SetFixedInVersion 123 ''3.0.5'']))"
    by (simp add: state_merge_def world_merge_def example_world_def issue_123_def)
  from a c show ?thesis by blast
qed

subsection \<open>The matcher and the commit summary\<close>

lemma step_char_iff:
  "(p', s', c') \<in> set (step_char P (p, s, c)) \<longleftrightarrow> (\<exists>x. s = x # s' \<and> P x \<and> p' = Suc p \<and> c' = c)"
  by (auto simp: step_char_def split: list.splits)

lemma rx_star_sound:
  assumes f: "sound_for f L"
  shows "(p', s', c') \<in> set (rx_star n f (p, s, c)) \<Longrightarrow>
         \<exists>u. s = u @ s' \<and> p' = p + length u \<and> u \<in> star L"
proof (induction n arbitrary: p s c)
  case 0
  then show ?case by (auto intro: star_nil)
next
  case (Suc n)
  from Suc.prems consider
    (stop) "(p', s', c') = (p, s, c)"
    | (go) p1 s1 c1 where "(p1, s1, c1) \<in> set (f (p, s, c))" "p < p1"
        "(p', s', c') \<in> set (rx_star n f (p1, s1, c1))"
    by (auto simp: List.bind_def)
  then show ?case
  proof cases
    case stop
    then show ?thesis by (auto intro: star_nil)
  next
    case go
    from f go(1) obtain v where v: "s = v @ s1" "p1 = p + length v" "v \<in> L"
      unfolding sound_for_def by blast
    from Suc.IH [OF go(3)] obtain w where w: "s1 = w @ s'" "p' = p1 + length w" "w \<in> star L"
      by blast
    from v go(2) have "v \<noteq> []" by auto
    with v w have "v @ w \<in> star L" by (auto intro: star_step)
    with v w show ?thesis by (intro exI [of _ "v @ w"]) auto
  qed
qed

lemma rx_match_sound: "sound_for (rx_match ic r) (lang ic r)"
proof (induction r)
  case (Cat r1 r2)
  show ?case
    unfolding sound_for_def
  proof (intro allI impI)
    fix p s c p' s' c'
    assume "(p', s', c') \<in> set (rx_match ic (Cat r1 r2) (p, s, c))"
    then obtain p1 s1 c1 where a: "(p1, s1, c1) \<in> set (rx_match ic r1 (p, s, c))"
      and b: "(p', s', c') \<in> set (rx_match ic r2 (p1, s1, c1))"
      by (auto simp: List.bind_def)
    from Cat.IH(1) a obtain u where u: "s = u @ s1" "p1 = p + length u" "u \<in> lang ic r1"
      unfolding sound_for_def by blast
    from Cat.IH(2) b obtain v where v: "s1 = v @ s'" "p' = p1 + length v" "v \<in> lang ic r2"
      unfolding sound_for_def by blast
    from u v show "\<exists>u. s = u @ s' \<and> p' = p + length u \<and> u \<in> lang ic (Cat r1 r2)"
      by (intro exI [of _ "u @ v"]) auto
  qed
next
  case (Star r)
  show ?case
    unfolding sound_for_def using rx_star_sound [OF Star.IH] by simp
next
  case (Grp name r)
  then show ?case unfolding sound_for_def by (auto; blast)
next
  case (Alt r1 r2)
  then show ?case unfolding sound_for_def by (auto; blast)
next
  case (Opt r)
  then show ?case unfolding sound_for_def by (auto; blast)
qed (auto simp: sound_for_def step_char_iff)

lemma rx_matchD:
  "(p', s', c') \<in> set (rx_match ic r (p, s, c)) \<Longrightarrow>
   \<exists>u. s = u @ s' \<and> p' = p + length u \<and> u \<in> lang ic r"
  using rx_match_sound [of ic r] unfolding sound_for_def by blast

lemma rx_star_complete:
  assumes f: "complete_for f L"
  shows "u \<in> star L \<Longrightarrow> length (u @ s') \<le> n \<Longrightarrow>
         \<exists>c'. (p + length u, s', c') \<in> set (rx_star n f (p, u @ s', c))"
proof (induction arbitrary: n p c rule: star.induct)
  case star_nil
  then show ?case by (cases n) auto
next
  case (star_step v w)
  from star_step.prems star_step.hyps(2) obtain m where n: "n = Suc m"
    by (cases n) auto
  from f star_step.hyps(1) obtain c1 where
    c1: "(p + length v, w @ s', c1) \<in> set (f (p, v @ (w @ s'), c))"
    unfolding complete_for_def by blast
  from star_step.prems n star_step.hyps(2) have "length (w @ s') \<le> m"
    by (cases v) auto
  from star_step.IH [OF this, of "p + length v" c1] obtain c' where
    c': "(p + length v + length w, s', c') \<in> set (rx_star m f (p + length v, w @ s', c1))"
    by blast
  from star_step.hyps(2) have "p < p + length v" by simp
  then have "(p + length v, w @ s', c1) \<in> set (filter (\<lambda>st'. fst (p, v @ w @ s', c) < fst st') (f (p, v @ w @ s', c)))"
    using c1 by simp
  with c' have "(p + length (v @ w), s', c') \<in> set (rx_star (Suc m) f (p, (v @ w) @ s', c))"
    unfolding rx_star.simps List.bind_def
    by (simp only: set_append set_concat set_map append_assoc length_append add.assoc) blast
  then show ?case unfolding n by blast
qed

lemma rx_match_complete: "anchor_free r \<Longrightarrow> complete_for (rx_match ic r) (lang ic r)"
proof (induction r)
  case (Cat r1 r2)
  then have 1: "complete_for (rx_match ic r1) (lang ic r1)"
    and 2: "complete_for (rx_match ic r2) (lang ic r2)" by auto
  show ?case
    unfolding complete_for_def
  proof (intro ballI allI)
    fix x p s' c
    assume "x \<in> lang ic (Cat r1 r2)"
    then obtain u v where x: "x = u @ v" "u \<in> lang ic r1" "v \<in> lang ic r2" by auto
    from 1 x(2) obtain c1 where
      c1: "(p + length u, v @ s', c1) \<in> set (rx_match ic r1 (p, u @ (v @ s'), c))"
      unfolding complete_for_def by blast
    from 2 x(3) obtain c2 where
      c2: "(p + length u + length v, s', c2) \<in> set (rx_match ic r2 (p + length u, v @ s', c1))"
      unfolding complete_for_def by blast
    from c1 c2 show "\<exists>c'. (p + length x, s', c') \<in> set (rx_match ic (Cat r1 r2) (p, x @ s', c))"
      unfolding x(1) by (auto simp: List.bind_def add.assoc intro!: exI [of _ c2] bexI [of _ "(p + length u, v @ s', c1)"])
  qed
next
  case (Star r)
  then have "complete_for (rx_match ic r) (lang ic r)" by simp
  from rx_star_complete [OF this] show ?case
    unfolding complete_for_def by simp
next
  case (Grp name r)
  then have 1: "complete_for (rx_match ic r) (lang ic r)" by simp
  show ?case
    unfolding complete_for_def
  proof (intro ballI allI)
    fix u p s' c
    assume "u \<in> lang ic (Grp name r)"
    with 1 obtain c1 where "(p + length u, s', c1) \<in> set (rx_match ic r (p, u @ s', c))"
      unfolding complete_for_def by fastforce
    then show "\<exists>c'. (p + length u, s', c') \<in> set (rx_match ic (Grp name r) (p, u @ s', c))"
      by (force simp: image_iff)
  qed
next
  case (Alt r1 r2)
  then show ?case unfolding complete_for_def by (auto; blast)
next
  case (Opt r)
  then show ?case unfolding complete_for_def by (auto; blast)
qed (auto simp: complete_for_def step_char_iff)

lemma rx_matchI:
  "anchor_free r \<Longrightarrow> u \<in> lang ic r \<Longrightarrow>
   \<exists>c'. (p + length u, s', c') \<in> set (rx_match ic r (p, u @ s', c))"
  using rx_match_complete [of r ic] unfolding complete_for_def by blast

lemma rx_star_caps:
  assumes f: "cap_kept f n"
  shows "(p', s', c') \<in> set (rx_star k f (p, s, c)) \<Longrightarrow> map_of c' n = map_of c n"
proof (induction k arbitrary: p s c)
  case 0
  then show ?case by simp
next
  case (Suc k)
  from Suc.prems consider
    (stop) "(p', s', c') = (p, s, c)"
    | (go) p1 s1 c1 where "(p1, s1, c1) \<in> set (f (p, s, c))"
        "(p', s', c') \<in> set (rx_star k f (p1, s1, c1))"
    by (auto simp: List.bind_def)
  then show ?case
  proof cases
    case stop
    then show ?thesis by simp
  next
    case go
    from f go(1) have "map_of c1 n = map_of c n" unfolding cap_kept_def by blast
    with Suc.IH [OF go(2)] show ?thesis by simp
  qed
qed

lemma rx_match_caps: "n \<notin> grp_names r \<Longrightarrow> cap_kept (rx_match ic r) n"
proof (induction r)
  case (Cat r1 r2)
  then have 1: "cap_kept (rx_match ic r1) n" and 2: "cap_kept (rx_match ic r2) n" by auto
  show ?case
    unfolding cap_kept_def
  proof (intro allI impI)
    fix p s c p' s' c'
    assume "(p', s', c') \<in> set (rx_match ic (Cat r1 r2) (p, s, c))"
    then obtain p1 s1 c1 where a: "(p1, s1, c1) \<in> set (rx_match ic r1 (p, s, c))"
      and b: "(p', s', c') \<in> set (rx_match ic r2 (p1, s1, c1))"
      by (auto simp: List.bind_def)
    from 1 a have "map_of c1 n = map_of c n" unfolding cap_kept_def by blast
    moreover from 2 b have "map_of c' n = map_of c1 n" unfolding cap_kept_def by blast
    ultimately show "map_of c' n = map_of c n" by simp
  qed
next
  case (Star r)
  then have "cap_kept (rx_match ic r) n" by simp
  from rx_star_caps [OF this] show ?case unfolding cap_kept_def by simp
next
  case (Grp name r)
  then have 1: "cap_kept (rx_match ic r) n" and 2: "n \<noteq> name" by auto
  show ?case
    unfolding cap_kept_def
  proof (intro allI impI)
    fix p s c p' s' c'
    assume "(p', s', c') \<in> set (rx_match ic (Grp name r) (p, s, c))"
    then obtain c1 where a: "(p', s', c1) \<in> set (rx_match ic r (p, s, c))"
      and b: "c' = (name, take (p' - p) s) # c1"
      by auto
    from 1 a have "map_of c1 n = map_of c n" unfolding cap_kept_def by blast
    with b 2 show "map_of c' n = map_of c n" by simp
  qed
next
  case (Alt r1 r2)
  then show ?case unfolding cap_kept_def by (auto; blast)
next
  case (Opt r)
  then show ?case unfolding cap_kept_def by (auto; blast)
qed (auto simp: cap_kept_def step_char_iff)

lemma rx_match_capsD:
  "(p', s', c') \<in> set (rx_match ic r (p, s, c)) \<Longrightarrow> n \<notin> grp_names r \<Longrightarrow>
   map_of c' n = map_of c n"
  using rx_match_caps [of n r ic] unfolding cap_kept_def by blast

lemma rx_match_GrpD:
  assumes "(p', s', c') \<in> set (rx_match ic (Grp name r) (p, s, c))"
  shows "\<exists>u c1. s = u @ s' \<and> p' = p + length u \<and> u \<in> lang ic r \<and> c' = (name, u) # c1
            \<and> (p', s', c1) \<in> set (rx_match ic r (p, s, c))"
proof -
  from assms obtain c1 where a: "(p', s', c1) \<in> set (rx_match ic r (p, s, c))"
    and b: "c' = (name, take (p' - p) s) # c1"
    by auto
  from rx_matchD [OF a] obtain u where u: "s = u @ s'" "p' = p + length u" "u \<in> lang ic r"
    by blast
  with a b show ?thesis by auto
qed

lemma ustr_simps [simp]: "ustr [] = []" "ustr (c # cs) = of_char c # ustr cs"
  by (simp_all add: ustr_def)

lemma lit_eq_punct [simp]:
  "lit_eq ic CHR '' '' c \<longleftrightarrow> c = 0x20"
  "lit_eq ic CHR ''#'' c \<longleftrightarrow> c = 0x23"
  "lit_eq ic CHR '','' c \<longleftrightarrow> c = 0x2C"
  "lit_eq ic CHR '':'' c \<longleftrightarrow> c = 0x3A"
  "lit_eq ic CHR ''-'' c \<longleftrightarrow> c = 0x2D"
  by (auto simp: lit_eq_def re_fold_def)

lemma lang_Str: "lang ic (Str w) = {u. list_all2 (lit_eq ic) w u}"
proof (induction w)
  case Nil
  then show ?case by auto
next
  case (Cons a w)
  show ?case
  proof (intro set_eqI iffI)
    fix u assume "u \<in> lang ic (Str (a # w))"
    then obtain c v where "u = c # v" "lit_eq ic a c" "v \<in> lang ic (Str w)" by auto
    then show "u \<in> {u. list_all2 (lit_eq ic) (a # w) u}" by (simp add: Cons.IH)
  next
    fix u assume "u \<in> {u. list_all2 (lit_eq ic) (a # w) u}"
    then obtain c v where u: "u = c # v" "lit_eq ic a c" "list_all2 (lit_eq ic) w v"
      by (auto simp: list_all2_Cons1)
    then have "[c] \<in> lang ic (Lit a)" "v \<in> lang ic (Str w)" by (simp_all add: Cons.IH)
    then have "[c] @ v \<in> lang ic (Cat (Lit a) (Str w))"
      unfolding lang.simps(7) by blast
    with u show "u \<in> lang ic (Str (a # w))" by simp
  qed
qed

lemma lang_action:
  "u \<in> lang True action_rx
     \<longleftrightarrow> list_all2 (lit_eq True) ''fixes'' u \<or> list_all2 (lit_eq True) ''refs'' u"
  unfolding action_rx_def lang.simps(8) Un_iff lang_Str mem_Collect_eq
  by (rule refl)

lemma star_Digit: "u \<in> star (lang ic Digit) \<longleftrightarrow> list_all is_decimal u"
proof
  assume "u \<in> star (lang ic Digit)"
  then show "list_all is_decimal u"
    by (induction rule: star.induct) auto
next
  assume "list_all is_decimal u"
  then show "u \<in> star (lang ic Digit)"
  proof (induction u)
    case Nil
    then show ?case by (simp add: star_nil)
  next
    case (Cons a u)
    then have "[a] \<in> lang ic Digit" "u \<in> star (lang ic Digit)" by auto
    from star_step [OF this(1) _ this(2)] show ?case by simp
  qed
qed

lemma lang_Cat_iff: "w \<in> lang ic (Cat r1 r2) \<longleftrightarrow> (\<exists>u v. w = u @ v \<and> u \<in> lang ic r1 \<and> v \<in> lang ic r2)"
  by auto

lemma lang_Lit_punct:
  "u \<in> lang ic (Lit CHR '' '') \<longleftrightarrow> u = [0x20]"
  "u \<in> lang ic (Lit CHR ''#'') \<longleftrightarrow> u = [0x23]"
  "u \<in> lang ic (Lit CHR '','') \<longleftrightarrow> u = [0x2C]"
  "u \<in> lang ic (Lit CHR '':'') \<longleftrightarrow> u = [0x3A]"
  by auto

lemma lang_Digit_iff: "u \<in> lang ic Digit \<longleftrightarrow> (\<exists>c. u = [c] \<and> is_decimal c)"
  by auto

lemma lang_Plus_Digit: "u \<in> lang ic (Plus Digit) \<longleftrightarrow> digits u"
proof
  assume "u \<in> lang ic (Plus Digit)"
  then obtain a v where "u = a @ v" "a \<in> lang ic Digit" "v \<in> star (lang ic Digit)"
    unfolding Plus_def lang_Cat_iff lang.simps(10) by blast
  then show "digits u"
    unfolding star_Digit lang_Digit_iff by (auto simp: digits_def)
next
  assume "digits u"
  then obtain a v where "u = a # v" "is_decimal a" "list_all is_decimal v"
    by (cases u) (auto simp: digits_def)
  then have "[a] \<in> lang ic Digit" "v \<in> star (lang ic Digit)" "u = [a] @ v"
    unfolding star_Digit lang_Digit_iff by simp_all
  then show "u \<in> lang ic (Plus Digit)"
    unfolding Plus_def lang_Cat_iff lang.simps(10) by blast
qed

lemma lang_Grp: "lang ic (Grp n r) = lang ic r"
  by simp

lemma lang_Opt_space: "u \<in> lang ic (Opt (Lit CHR '' '')) \<longleftrightarrow> u = [] \<or> u = [0x20]"
  by auto

lemma lang_item: "u \<in> lang True item_rx \<longleftrightarrow> (\<exists>m. digits (snd m) \<and> u = more_text m)"
proof
  assume "u \<in> lang True item_rx"
  then obtain sp d where u: "u = [0x2C] @ sp @ [0x23] @ d" and o: "sp = [] \<or> sp = [0x20]"
    and d: "digits d"
    unfolding item_rx_def lang_Grp lang_Cat_iff lang_Lit_punct(3)
      lang_Lit_punct(2) lang_Opt_space lang_Plus_Digit
    by auto
  from o show "\<exists>m. digits (snd m) \<and> u = more_text m"
  proof
    assume "sp = []"
    with u d show ?thesis by (intro exI [of _ "(False, d)"]) (simp add: more_text_def)
  next
    assume "sp = [0x20]"
    with u d show ?thesis by (intro exI [of _ "(True, d)"]) (simp add: more_text_def)
  qed
next
  assume "\<exists>m. digits (snd m) \<and> u = more_text m"
  then obtain b d where d: "digits d" and u: "u = more_text (b, d)" by auto
  have "\<exists>sp. (sp = [] \<or> sp = [0x20]) \<and> u = [0x2C] @ (sp @ ([0x23] @ d))"
    using u by (cases b) (auto simp: more_text_def)
  with d show "u \<in> lang True item_rx"
    unfolding item_rx_def lang_Grp lang_Cat_iff lang_Lit_punct(3)
      lang_Lit_punct(2) lang_Opt_space lang_Plus_Digit
    by blast
qed

lemma more_text_nonempty: "more_text m \<noteq> []"
  by (simp add: more_text_def)

lemma star_item:
  "u \<in> star (lang True item_rx)
     \<longleftrightarrow> (\<exists>ms. list_all (\<lambda>m. digits (snd m)) ms \<and> u = concat (map more_text ms))"
proof
  assume "u \<in> star (lang True item_rx)"
  then show "\<exists>ms. list_all (\<lambda>m. digits (snd m)) ms \<and> u = concat (map more_text ms)"
  proof (induction rule: star.induct)
    case star_nil
    show ?case by (intro exI [of _ "[]"]) simp
  next
    case (star_step v w)
    from star_step.hyps(1) obtain m where m: "digits (snd m)" "v = more_text m"
      unfolding lang_item by blast
    from star_step.IH obtain ms where ms: "list_all (\<lambda>m. digits (snd m)) ms"
      "w = concat (map more_text ms)" by blast
    from m ms show ?case by (intro exI [of _ "m # ms"]) simp
  qed
next
  assume "\<exists>ms. list_all (\<lambda>m. digits (snd m)) ms \<and> u = concat (map more_text ms)"
  then obtain ms where "list_all (\<lambda>m. digits (snd m)) ms" "u = concat (map more_text ms)"
    by blast
  then show "u \<in> star (lang True item_rx)"
  proof (induction ms arbitrary: u)
    case Nil
    then show ?case by (simp add: star_nil)
  next
    case (Cons m ms)
    from Cons.prems have "digits (snd m)" by simp
    then have "more_text m \<in> lang True item_rx"
      unfolding lang_item by blast
    moreover from Cons have "concat (map more_text ms) \<in> star (lang True item_rx)"
      by simp
    ultimately have "more_text m \<in> lang True item_rx"
      and "concat (map more_text ms) \<in> star (lang True item_rx)" by blast+
    from star_step [OF this(1) more_text_nonempty this(2)] Cons.prems(2)
    show ?case by simp
  qed
qed

lemma lang_issues:
  "u \<in> lang True issues_rx
     \<longleftrightarrow> (\<exists>d ms. digits d \<and> list_all (\<lambda>m. digits (snd m)) ms
                 \<and> u = [0x23] @ d @ concat (map more_text ms))"
  unfolding issues_rx_def lang_Grp lang_Cat_iff lang_Lit_punct(2)
    lang_Plus_Digit lang.simps(10) star_item
  by blast

lemma lang_sep: "u \<in> lang True sep_rx \<longleftrightarrow> u = [0x3A] \<or> u = [0x20, 0x2D]"
  unfolding sep_rx_def lang_Grp lang.simps(8) Un_iff lang_Str mem_Collect_eq
    lang_Lit_punct(4)
  by (auto simp: list_all2_Cons1)

lemma star_AnyChar: "u \<in> star (lang ic AnyChar) \<longleftrightarrow> (0x0A::int) \<notin> set u"
proof
  assume "u \<in> star (lang ic AnyChar)"
  then show "(0x0A::int) \<notin> set u"
    by (induction rule: star.induct) auto
next
  assume "(0x0A::int) \<notin> set u"
  then show "u \<in> star (lang ic AnyChar)"
  proof (induction u)
    case Nil
    then show ?case by (simp add: star_nil)
  next
    case (Cons a u)
    then have "[a] \<in> lang ic AnyChar" "u \<in> star (lang ic AnyChar)" by auto
    from star_step [OF this(1) _ this(2)] show ?case by simp
  qed
qed

lemma summary_regex_parts:
  "COMMIT_VALID_SUMMARY_REGEX =
     Cat StartA (Cat (Grp ''action'' action_rx) (Cat (Lit CHR '' '')
       (Cat (Grp ''issues'' issues_rx) (Cat sep_rx (Cat (Lit CHR '' '')
          (Cat (Star AnyChar) EndZ))))))"
  by (simp add: COMMIT_VALID_SUMMARY_REGEX_def action_rx_def issues_rx_def item_rx_def sep_rx_def)

lemma rx_match_CatD:
  "st' \<in> set (rx_match ic (Cat a b) st) \<Longrightarrow>
   \<exists>st1 \<in> set (rx_match ic a st). st' \<in> set (rx_match ic b st1)"
  by (auto simp: List.bind_def)

lemma rx_match_CatI:
  "st1 \<in> set (rx_match ic a st) \<Longrightarrow> st' \<in> set (rx_match ic b st1) \<Longrightarrow>
   st' \<in> set (rx_match ic (Cat a b) st)"
  by (auto simp: List.bind_def)

lemma grp_names_Str: "grp_names (Str w) = {}"
  by (induction w) auto

lemma grp_names_parts:
  "grp_names action_rx = {}" "grp_names issues_rx = {''3'', ''4'', ''5''}"
  "grp_names sep_rx = {''6''}"
  by (auto simp: action_rx_def issues_rx_def item_rx_def sep_rx_def Plus_def grp_names_Str)

lemma anchor_free_Str: "anchor_free (Str w)"
  by (induction w) auto

lemma anchor_free_parts:
  "anchor_free action_rx" "anchor_free issues_rx" "anchor_free sep_rx"
  by (auto simp: action_rx_def issues_rx_def item_rx_def sep_rx_def Plus_def anchor_free_Str)

lemma summary_sound:
  assumes "(p', s', c') \<in> set (rx_match True COMMIT_VALID_SUMMARY_REGEX (0, l, []))"
  shows "\<exists>w x sp d. l = w @ [0x20] @ x @ sp @ [0x20] @ d
      \<and> w \<in> lang True action_rx \<and> x \<in> lang True issues_rx \<and> sp \<in> lang True sep_rx
      \<and> (0x0A::int) \<notin> set d
      \<and> map_of c' ''action'' = Some w \<and> map_of c' ''issues'' = Some x"
proof -
  from assms [unfolded summary_regex_parts]
  obtain st0 where 0: "st0 \<in> set (rx_match True StartA (0, l, []))"
    and r0: "(p', s', c') \<in> set (rx_match True (Cat (Grp ''action'' action_rx) (Cat (Lit CHR '' '')
       (Cat (Grp ''issues'' issues_rx) (Cat sep_rx (Cat (Lit CHR '' '')
          (Cat (Star AnyChar) EndZ)))))) st0)"
    by (blast dest: rx_match_CatD)
  from 0 have st0: "st0 = (0, l, [])" by simp
  from rx_match_CatD [OF r0] obtain p1 s1 c1 where
    1: "(p1, s1, c1) \<in> set (rx_match True (Grp ''action'' action_rx) (0, l, []))"
    and r1: "(p', s', c') \<in> set (rx_match True (Cat (Lit CHR '' '')
       (Cat (Grp ''issues'' issues_rx) (Cat sep_rx (Cat (Lit CHR '' '')
          (Cat (Star AnyChar) EndZ))))) (p1, s1, c1))"
    unfolding st0 by (metis prod_cases3)
  from rx_match_GrpD [OF 1] obtain w c1' where
    w: "l = w @ s1" "w \<in> lang True action_rx" "c1 = (''action'', w) # c1'"
    by blast
  from rx_match_CatD [OF r1] obtain p2 s2 c2 where
    2: "(p2, s2, c2) \<in> set (rx_match True (Lit CHR '' '') (p1, s1, c1))"
    and r2: "(p', s', c') \<in> set (rx_match True
       (Cat (Grp ''issues'' issues_rx) (Cat sep_rx (Cat (Lit CHR '' '')
          (Cat (Star AnyChar) EndZ)))) (p2, s2, c2))"
    by (metis prod_cases3)
  from 2 have s1: "s1 = (0x20::int) # s2" "c2 = c1"
    by (auto simp: step_char_iff)
  from rx_match_CatD [OF r2] obtain p3 s3 c3 where
    3: "(p3, s3, c3) \<in> set (rx_match True (Grp ''issues'' issues_rx) (p2, s2, c2))"
    and r3: "(p', s', c') \<in> set (rx_match True (Cat sep_rx (Cat (Lit CHR '' '')
          (Cat (Star AnyChar) EndZ))) (p3, s3, c3))"
    by (metis prod_cases3)
  from rx_match_GrpD [OF 3] obtain x c3' where
    x: "s2 = x @ s3" "x \<in> lang True issues_rx" "c3 = (''issues'', x) # c3'"
    "(p3, s3, c3') \<in> set (rx_match True issues_rx (p2, s2, c2))"
    by blast
  from rx_match_capsD [OF x(4), of "''action''"] have a3: "map_of c3' ''action'' = Some w"
    by (simp add: grp_names_parts s1 w)
  from rx_match_CatD [OF r3] obtain p4 s4 c4 where
    4: "(p4, s4, c4) \<in> set (rx_match True sep_rx (p3, s3, c3))"
    and r4: "(p', s', c') \<in> set (rx_match True (Cat (Lit CHR '' '')
          (Cat (Star AnyChar) EndZ)) (p4, s4, c4))"
    by (metis prod_cases3)
  from rx_matchD [OF 4] obtain sp where sp: "s3 = sp @ s4" "sp \<in> lang True sep_rx" by blast
  from rx_match_capsD [OF 4, of "''action''"] rx_match_capsD [OF 4, of "''issues''"] a3
  have c4: "map_of c4 ''action'' = Some w" "map_of c4 ''issues'' = Some x"
    by (simp_all add: grp_names_parts x)
  from rx_match_CatD [OF r4] obtain p5 s5 c5 where
    5: "(p5, s5, c5) \<in> set (rx_match True (Lit CHR '' '') (p4, s4, c4))"
    and r5: "(p', s', c') \<in> set (rx_match True (Cat (Star AnyChar) EndZ) (p5, s5, c5))"
    by (metis prod_cases3)
  from 5 have s4: "s4 = (0x20::int) # s5" "c5 = c4"
    by (auto simp: step_char_iff)
  from rx_match_CatD [OF r5] obtain p6 s6 c6 where
    6: "(p6, s6, c6) \<in> set (rx_match True (Star AnyChar) (p5, s5, c5))"
    and r6: "(p', s', c') \<in> set (rx_match True EndZ (p6, s6, c6))"
    by (metis prod_cases3)
  from r6 have e: "s6 = []" "c' = c6" by (auto split: if_splits)
  from rx_matchD [OF 6] obtain d where d: "s5 = d @ s6" "d \<in> star (lang True AnyChar)"
    unfolding lang.simps(10) by blast
  from rx_match_capsD [OF 6, of "''action''"] rx_match_capsD [OF 6, of "''issues''"]
  have c6: "map_of c6 ''action'' = map_of c5 ''action''" "map_of c6 ''issues'' = map_of c5 ''issues''"
    by simp_all
  from d(2) have nl: "(0x0A::int) \<notin> set d" unfolding star_AnyChar .
  have "l = w @ [0x20] @ x @ sp @ [0x20] @ d"
    using w(1) s1(1) x(1) sp(1) s4(1) d(1) e(1) by simp
  with w(2) x(2) sp(2) nl c4 c6 s4(2) e(2) show ?thesis
    by (intro exI [of _ w] exI [of _ x] exI [of _ sp] exI [of _ d]) simp
qed

lemma step_space:
  "(Suc p, s, c) \<in> set (rx_match True (Lit CHR '' '') (p, [0x20] @ s, c))"
  by (simp add: step_char_iff)

lemma summary_complete:
  assumes "w \<in> lang True action_rx" "x \<in> lang True issues_rx" "sp \<in> lang True sep_rx"
    and "(0x0A::int) \<notin> set d"
  shows "rx_match True COMMIT_VALID_SUMMARY_REGEX (0, w @ [0x20] @ x @ sp @ [0x20] @ d, []) \<noteq> []"
proof -
  let ?l = "w @ [0x20] @ x @ sp @ [0x20] @ d"
  have af: "anchor_free (Grp ''action'' action_rx)" "anchor_free (Grp ''issues'' issues_rx)"
    "anchor_free sep_rx" "anchor_free (Star AnyChar)"
    by (simp_all add: anchor_free_parts)
  have mem: "w \<in> lang True (Grp ''action'' action_rx)" "x \<in> lang True (Grp ''issues'' issues_rx)"
    using assms by simp_all
  from assms(4) have memd: "d \<in> lang True (Star AnyChar)"
    unfolding lang.simps(10) star_AnyChar .
  have 0: "(0, ?l, []) \<in> set (rx_match True StartA (0, ?l, []))" by simp
  from rx_matchI [OF af(1) mem(1), of 0 "[0x20] @ x @ sp @ [0x20] @ d" "[]"]
  obtain c1 where 1: "(0 + length w, [0x20] @ x @ sp @ [0x20] @ d, c1)
      \<in> set (rx_match True (Grp ''action'' action_rx) (0, ?l, []))"
    by blast
  note 2 = step_space [of "0 + length w" "x @ sp @ [0x20] @ d" c1]
  from rx_matchI [OF af(2) mem(2), of "Suc (0 + length w)" "sp @ [0x20] @ d" c1]
  obtain c3 where 3: "(Suc (0 + length w) + length x, sp @ [0x20] @ d, c3)
      \<in> set (rx_match True (Grp ''issues'' issues_rx) (Suc (0 + length w), x @ sp @ [0x20] @ d, c1))"
    by blast
  from rx_matchI [OF af(3) assms(3), of "Suc (0 + length w) + length x" "[0x20] @ d" c3]
  obtain c4 where 4: "(Suc (0 + length w) + length x + length sp, [0x20] @ d, c4)
      \<in> set (rx_match True sep_rx (Suc (0 + length w) + length x, sp @ [0x20] @ d, c3))"
    by blast
  note 5 = step_space [of "Suc (0 + length w) + length x + length sp" d c4]
  from rx_matchI [OF af(4) memd, of "Suc (Suc (0 + length w) + length x + length sp)" "[]" c4]
  obtain c6 where 6: "(Suc (Suc (0 + length w) + length x + length sp) + length d, [], c6)
      \<in> set (rx_match True (Star AnyChar) (Suc (Suc (0 + length w) + length x + length sp), d @ [], c4))"
    by blast
  have 7: "(Suc (Suc (0 + length w) + length x + length sp) + length d, [], c6)
      \<in> set (rx_match True EndZ (Suc (Suc (0 + length w) + length x + length sp) + length d, [], c6))"
    by simp
  note step = rx_match_CatI
  have "(Suc (Suc (0 + length w) + length x + length sp) + length d, [], c6)
      \<in> set (rx_match True COMMIT_VALID_SUMMARY_REGEX (0, ?l, []))"
    unfolding summary_regex_parts
    apply (rule step [OF 0])
    apply (rule step [OF 1])
    apply (rule step [OF 2])
    apply (rule step [OF 3])
    apply (rule step [OF 4])
    apply (rule step [OF 5])
    apply (rule step [OF 6 [unfolded append_Nil2]])
    apply (rule 7)
    done
  then show ?thesis by auto
qed

lemma not_decimal_punct [simp]:
  "\<not> is_decimal 0x3A" "\<not> is_decimal 0x20" "\<not> is_decimal 0x23" "\<not> is_decimal 0x2C"
  by (simp_all add: is_decimal_def decimal_value_def decimal_zeros_def)

lemma is_decimal_not_punct:
  "is_decimal c \<Longrightarrow> c \<noteq> 0x3A \<and> c \<noteq> 0x20 \<and> c \<noteq> 0x23 \<and> c \<noteq> 0x2C"
  by auto

lemma cut_digits: "list_all is_decimal d \<Longrightarrow> cut (d @ r) = length d + cut r"
  by (induction d) (auto dest: is_decimal_not_punct)

lemma cut_token: "digits d \<Longrightarrow> cut ([0x23] @ d @ r) = Suc (length d) + cut r"
  by (simp add: digits_def cut_digits)

lemma cut_more: "digits (snd m) \<Longrightarrow> cut (more_text m @ r) = length (more_text m) + cut r"
  using cut_token [of "snd m" r]
  by (cases "fst m") (simp_all add: more_text_def)

lemma cut_items:
  "list_all (\<lambda>m. digits (snd m)) ms \<Longrightarrow>
   cut (concat (map more_text ms) @ r) = length (concat (map more_text ms)) + cut r"
  by (induction ms) (auto simp: cut_more)

lemma cut_issues:
  assumes "x \<in> lang True issues_rx" "sp \<in> lang True sep_rx"
  shows "cut (x @ sp @ r) = length x"
proof -
  from assms(1) obtain d ms where x: "digits d" "list_all (\<lambda>m. digits (snd m)) ms"
    "x = [0x23] @ d @ concat (map more_text ms)"
    unfolding lang_issues by blast
  from assms(2) have "cut (sp @ r) = 0"
    unfolding lang_sep by auto
  with x show ?thesis
    by (simp add: cut_digits cut_items digits_def)
qed

lemma issues_unique:
  assumes "x \<in> lang True issues_rx" "sp \<in> lang True sep_rx"
    and "x' \<in> lang True issues_rx" "sp' \<in> lang True sep_rx"
    and "x @ sp @ r = x' @ sp' @ r'"
  shows "x = x'"
proof -
  from cut_issues [OF assms(1,2), of r] cut_issues [OF assms(3,4), of r'] assms(5)
  have "length x = length x'" by simp
  with assms(5) show ?thesis by (metis append_eq_append_conv)
qed

lemma list_all2_pick:
  "list_all2 P xs ys \<Longrightarrow> y \<in> set ys \<Longrightarrow> \<exists>x \<in> set xs. P x y"
  by (induction rule: list_all2_induct) auto

lemma action_no_space:
  assumes "w \<in> lang True action_rx"
  shows "0x20 \<notin> set w"
proof
  assume "0x20 \<in> set w"
  with assms obtain a where "a \<in> set ''fixes'' \<union> set ''refs''" "lit_eq True a 0x20"
    unfolding lang_action by (blast dest: list_all2_pick)
  then show False
    by (auto simp: lit_eq_def re_fold_def)
qed

lemma word_unique:
  "c \<notin> set w \<Longrightarrow> c \<notin> set w' \<Longrightarrow> w @ c # a = w' @ c # b \<Longrightarrow> w = w' \<and> a = b"
proof (induction w arbitrary: w')
  case Nil
  then show ?case by (cases w') auto
next
  case (Cons y w)
  then show ?case by (cases w') auto
qed

lemma summary_unique:
  assumes "w \<in> lang True action_rx" "x \<in> lang True issues_rx" "sp \<in> lang True sep_rx"
    and "w' \<in> lang True action_rx" "x' \<in> lang True issues_rx" "sp' \<in> lang True sep_rx"
    and "w @ [0x20] @ x @ sp @ r = w' @ [0x20] @ x' @ sp' @ r'"
  shows "w = w' \<and> x = x'"
proof -
  from assms(7) have "w @ (0x20::int) # (x @ sp @ r) = w' @ (0x20::int) # (x' @ sp' @ r')" by simp
  from word_unique [OF action_no_space [OF assms(1)] action_no_space [OF assms(4)] this]
  have "w = w'" "x @ sp @ r = x' @ sp' @ r'" by simp_all
  with issues_unique [OF assms(2,3,5,6)] show ?thesis by simp
qed

text \<open>The greedy match of a run of digits comes first.\<close>

lemma rx_star_Digit_hd:
  "list_all is_decimal d \<Longrightarrow> r = [] \<or> \<not> is_decimal (hd r) \<Longrightarrow> length d \<le> n \<Longrightarrow>
   \<exists>rest. rx_star n (rx_match ic Digit) (p, d @ r, c) = (p + length d, r, c) # rest"
proof (induction d arbitrary: n p)
  case Nil
  then have "rx_match ic Digit (p, r, c) = []"
    by (cases r) (auto simp: step_char_def)
  then show ?case by (cases n) (simp_all add: List.bind_def)
next
  case (Cons a d)
  then obtain m where n: "n = Suc m" "length d \<le> m" by (cases n) auto
  from Cons.prems have a: "rx_match ic Digit (p, (a # d) @ r, c) = [(Suc p, d @ r, c)]"
    by (simp add: step_char_def)
  from Cons.prems(1) have "list_all is_decimal d" by simp
  from Cons.IH [OF this Cons.prems(2) n(2), of "Suc p"]
  obtain rest where "rx_star m (rx_match ic Digit) (Suc p, d @ r, c) = (Suc p + length d, r, c) # rest"
    by blast
  with a show ?case
    unfolding n(1) by (simp add: List.bind_def del: rx_match.simps)
qed

lemma issues_regex_match:
  assumes "digits d" "r = [] \<or> \<not> is_decimal (hd r)"
  shows "\<exists>rest. rx_match False COMMIT_ISSUES_REGEX (p, (0x23::int) # d @ r, [])
            = (Suc (p + length d), r, [(''1'', d)]) # rest"
proof -
  from assms(1) obtain a d' where d: "d = a # d'" "is_decimal a" "list_all is_decimal d'"
    by (cases d) (auto simp: digits_def)
  from rx_star_Digit_hd [OF d(3) assms(2), of "length (d' @ r)" False "Suc (Suc p)" "[]"]
  obtain rest where
    "rx_star (length (d' @ r)) (rx_match False Digit) (Suc (Suc p), d' @ r, [])
       = (Suc (Suc p) + length d', r, []) # rest"
    by auto
  then show ?thesis
    by (simp add: COMMIT_ISSUES_REGEX_def Plus_def List.bind_def step_char_def lit_eq_def d)
qed

lemma issues_regex_nomatch:
  "s = [] \<or> hd s \<noteq> (0x23::int) \<Longrightarrow> rx_match False COMMIT_ISSUES_REGEX (p, s, []) = []"
  by (cases s) (auto simp: COMMIT_ISSUES_REGEX_def List.bind_def step_char_def lit_eq_def)

lemma findall_token:
  assumes "digits d" "r = [] \<or> \<not> is_decimal (hd r)"
  shows "findall_from False COMMIT_ISSUES_REGEX p ((0x23::int) # d @ r)
           = d # findall_from False COMMIT_ISSUES_REGEX (Suc (p + length d)) r"
proof -
  from issues_regex_match [OF assms, of p] obtain rest where
    m: "rx_match False COMMIT_ISSUES_REGEX (p, (0x23::int) # d @ r, [])
            = (Suc (p + length d), r, [(''1'', d)]) # rest"
    by blast
  show ?thesis
    by (subst findall_from.simps) (simp add: m group_def)
qed

lemma findall_skip:
  assumes "c \<noteq> (0x23::int)"
  shows "findall_from False COMMIT_ISSUES_REGEX p (c # r)
           = findall_from False COMMIT_ISSUES_REGEX (Suc p) r"
proof -
  from assms have nm: "rx_match False COMMIT_ISSUES_REGEX (p, c # r, []) = []"
    by (intro issues_regex_nomatch) simp
  show ?thesis
    by (subst findall_from.simps) (simp add: nm)
qed

lemma findall_Nil: "findall_from False COMMIT_ISSUES_REGEX p [] = []"
proof -
  have nm: "rx_match False COMMIT_ISSUES_REGEX (p, [], []) = []"
    by (intro issues_regex_nomatch) simp
  show ?thesis
    by (subst findall_from.simps) (simp add: nm)
qed

lemma items_hd:
  "concat (map more_text ms) = [] \<or> \<not> is_decimal (hd (concat (map more_text ms)))"
  by (cases ms) (auto simp: more_text_def)

lemma findall_items:
  "list_all (\<lambda>m. digits (snd m)) ms \<Longrightarrow>
   findall_from False COMMIT_ISSUES_REGEX p (concat (map more_text ms)) = map snd ms"
proof (induction ms arbitrary: p)
  case Nil
  then show ?case by (simp add: findall_Nil)
next
  case (Cons m ms)
  obtain b d where m: "m = (b, d)" by (cases m)
  from Cons.prems m have d: "digits d" by simp
  let ?r = "concat (map more_text ms)"
  from Cons.prems have ih: "findall_from False COMMIT_ISSUES_REGEX q ?r = map snd ms" for q
    by (intro Cons.IH) simp
  show ?case
  proof (cases b)
    case True
    with m have "concat (map more_text (m # ms)) = (0x2C::int) # (0x20::int) # (0x23::int) # d @ ?r"
      by (simp add: more_text_def)
    then show ?thesis
      by (simp add: findall_skip findall_token [OF d items_hd] ih m)
  next
    case False
    with m have "concat (map more_text (m # ms)) = (0x2C::int) # (0x23::int) # d @ ?r"
      by (simp add: more_text_def)
    then show ?thesis
      by (simp add: findall_skip findall_token [OF d items_hd] ih m)
  qed
qed

lemma findall_reflist:
  assumes "digits d" "list_all (\<lambda>m. digits (snd m)) ms"
  shows "findall False COMMIT_ISSUES_REGEX ([0x23] @ d @ concat (map more_text ms))
           = d # map snd ms"
  unfolding findall_def
  by (simp add: findall_token [OF assms(1) items_hd] findall_items [OF assms(2)])

lemma splitlines_acc_Cons:
  "acc \<noteq> [] \<or> s \<noteq> [] \<Longrightarrow>
   \<exists>ls. splitlines_acc acc s = (rev acc @ takeWhile (\<lambda>c. \<not> is_linebreak c) s) # ls"
proof (induction s arbitrary: acc)
  case Nil
  then show ?case by simp
next
  case (Cons a s)
  show ?case
  proof (cases "is_linebreak a")
    case True
    then show ?thesis by simp
  next
    case False
    from Cons.IH [of "a # acc"] obtain ls where
      "splitlines_acc (a # acc) s = (rev (a # acc) @ takeWhile (\<lambda>c. \<not> is_linebreak c) s) # ls"
      by blast
    with False show ?thesis by simp
  qed
qed

lemma subject_first_line:
  "m \<noteq> [] \<Longrightarrow> subject \<lparr>sha = h, message = m, fixes = f, refs = r\<rparr> = Inr (first_line m)"
  using splitlines_acc_Cons [of "[]" m]
  by (auto simp: subject_def splitlines_def first_line_def)

lemma subject_empty:
  "subject \<lparr>sha = h, message = [], fixes = f, refs = r\<rparr> = Inl IndexError"
  by (simp add: subject_def splitlines_def)

lemma first_line_no_newline: "(0x0A::int) \<notin> set (first_line m)"
proof
  assume "(0x0A::int) \<in> set (first_line m)"
  then have "\<not> is_linebreak (0x0A::int)"
    unfolding first_line_def by (rule set_takeWhileD [THEN conjunct2])
  then show False by (simp add: is_linebreak_def)
qed

lemma re_match_summary:
  assumes "w \<in> lang True action_rx" "x \<in> lang True issues_rx" "sp \<in> lang True sep_rx"
    and "(0x0A::int) \<notin> set d"
  shows "\<exists>caps. re_match True COMMIT_VALID_SUMMARY_REGEX (w @ [0x20] @ x @ sp @ [0x20] @ d) = Some caps
      \<and> map_of caps ''action'' = Some w \<and> map_of caps ''issues'' = Some x"
proof -
  let ?l = "w @ [0x20] @ x @ sp @ [0x20] @ d"
  from summary_complete [OF assms] obtain p' s' c' rest where
    m: "rx_match True COMMIT_VALID_SUMMARY_REGEX (0, ?l, []) = (p', s', c') # rest"
    by (cases "rx_match True COMMIT_VALID_SUMMARY_REGEX (0, ?l, [])") auto
  then have "(p', s', c') \<in> set (rx_match True COMMIT_VALID_SUMMARY_REGEX (0, ?l, []))"
    by simp
  from summary_sound [OF this] obtain w' x' sp' d' where
    s: "?l = w' @ [0x20] @ x' @ sp' @ [0x20] @ d'"
      "w' \<in> lang True action_rx" "x' \<in> lang True issues_rx" "sp' \<in> lang True sep_rx"
      "map_of c' ''action'' = Some w'" "map_of c' ''issues'' = Some x'"
    by blast
  from summary_unique [OF assms(1-3) s(2-4) s(1)] have "w = w'" "x = x'" by simp_all
  with s(5,6) m show ?thesis
    by (simp add: re_match_def)
qed


lemma sep_text_lang: "sep_text s \<in> lang True sep_rx"
  unfolding lang_sep by (cases s) (simp_all add: sep_text_def)

lemma tokens_digits:
  "list_all digits (tokens p)
     \<longleftrightarrow> digits (first_ref p) \<and> list_all (\<lambda>m. digits (snd m)) (more_refs p)"
  by (simp add: tokens_def list_all_iff)

lemma lower_code_fold: "lower_code c = [x] \<Longrightarrow> re_fold x = x \<Longrightarrow> re_fold c = x"
  by (auto simp: lower_code_def re_fold_def split: if_splits)

lemma lower_word:
  "lower u = map of_char w \<Longrightarrow>
   \<forall>a \<in> set w. re_fold (of_char a) = of_char a \<and> of_char a \<noteq> (0x307::int) \<Longrightarrow>
   list_all2 (lit_eq True) w u"
proof (induction u arbitrary: w)
  case Nil
  then show ?case by (simp add: lower_def)
next
  case (Cons c u)
  from Cons.prems(1) have l: "lower_code c @ lower u = map of_char w"
    by (simp add: lower_def)
  show ?case
  proof (cases "c = 0x130")
    case True
    with l have "map of_char w = 0x69 # 0x307 # lower u"
      by (simp add: lower_code_def)
    then obtain a b w' where "w = a # b # w'" "of_char b = (0x307::int)"
      by (auto simp: map_eq_Cons_conv)
    with Cons.prems(2) show ?thesis by simp
  next
    case False
    then have "\<exists>x. lower_code c = [x]"
      by (simp add: lower_code_def)
    then obtain x where x: "lower_code c = [x]" ..
    with l obtain a w' where w: "w = a # w'" "of_char a = x" "lower u = map of_char w'"
      by (auto simp: Cons_eq_map_conv)
    from Cons.prems(2) w have f: "re_fold x = x" by auto
    from lower_code_fold [OF x f] w(2) f have "lit_eq True a c"
      by (simp add: lit_eq_def)
    moreover from Cons.IH [OF w(3)] Cons.prems(2) w(1) have "list_all2 (lit_eq True) w' u"
      by simp
    ultimately show ?thesis by (simp add: w(1))
  qed
qed

lemma lower_action:
  assumes "lower u = ustr ''fixes'' \<or> lower u = ustr ''refs''"
  shows "u \<in> lang True action_rx"
proof -
  have "lower u = map of_char ''fixes'' \<Longrightarrow> list_all2 (lit_eq True) ''fixes'' u"
    by (rule lower_word) (simp_all add: re_fold_def)
  moreover have "lower u = map of_char ''refs'' \<Longrightarrow> list_all2 (lit_eq True) ''refs'' u"
    by (rule lower_word) (simp_all add: re_fold_def)
  ultimately show ?thesis
    using assms unfolding lang_action ustr_def by blast
qed

lemma well_formed_loose: "well_formed p \<Longrightarrow> loosely_formed p"
  using lower_action [of "action_word p"]
  by (auto simp: well_formed_def loosely_formed_def lang_action)

lemma render_parts:
  assumes "loosely_formed p"
  shows "action_word p \<in> lang True action_rx" "reflist_text p \<in> lang True issues_rx"
  using assms unfolding lang_action lang_issues loosely_formed_def tokens_digits reflist_text_def
  by (simp, auto)

lemma spaced_rest: "spaced p \<Longrightarrow> \<exists>d. rest p = [0x20] @ d"
  by (cases "rest p") (auto simp: spaced_def)


lemma render_match:
  assumes p: "loosely_formed p" "first_line m = render p"
  shows "\<exists>caps. re_match True COMMIT_VALID_SUMMARY_REGEX (first_line m) = Some caps
      \<and> group caps ''action'' = action_word p \<and> group caps ''issues'' = reflist_text p"
proof -
  from p(1) have "spaced p" by (simp add: loosely_formed_def)
  from spaced_rest [OF this] obtain d where d: "rest p = [0x20] @ d" ..
  have l: "first_line m = action_word p @ [0x20] @ reflist_text p @ sep_text (sep p) @ [0x20] @ d"
    unfolding p(2) render_def d by simp
  from first_line_no_newline [of m] have nl: "(0x0A::int) \<notin> set d"
    unfolding l by simp
  from re_match_summary [OF render_parts [OF p(1)] sep_text_lang nl, of "sep p"]
  show ?thesis
    unfolding l group_def by auto
qed

lemma ints_of_digits:
  "list_all digits ts \<Longrightarrow> list_all (\<lambda>d. length d \<le> INT_MAX_STR_DIGITS) ts \<Longrightarrow>
   ints_of ts = Inr (map digits_value ts)"
  by (induction ts) (auto simp: int_of_str_def digits_def)


lemma findall_tokens:
  assumes "list_all digits (tokens p)"
  shows "findall False COMMIT_ISSUES_REGEX (reflist_text p) = tokens p"
proof -
  from assms have d: "digits (first_ref p)" "list_all (\<lambda>m. digits (snd m)) (more_refs p)"
    unfolding tokens_digits by simp_all
  from findall_reflist [OF d] show ?thesis
    by (simp add: reflist_text_def tokens_def)
qed

text \<open>The parse of a message whose first line is a rendered summary line.\<close>

lemma parse_commit_render:
  assumes m: "m \<noteq> []"
    and p: "well_formed p" "within_limit p" "first_line m = render p"
  shows "parse_commit h m =
     Inr \<lparr>sha = h, message = m,
          fixes = (if lower (action_word p) = ustr ''fixes'' then ref_ids p else {}),
          refs = (if lower (action_word p) = ustr ''refs'' then ref_ids p else {})\<rparr>"
proof -
  from render_match [OF well_formed_loose [OF p(1)] p(3)]
  obtain caps where caps: "re_match True COMMIT_VALID_SUMMARY_REGEX (first_line m) = Some caps"
    "group caps ''action'' = action_word p" "group caps ''issues'' = reflist_text p"
    by blast
  from p(1) have wf: "list_all digits (tokens p)"
    "lower (action_word p) = ustr ''fixes'' \<or> lower (action_word p) = ustr ''refs''"
    by (auto simp: well_formed_def)
  from p(2) have "list_all (\<lambda>d. length d \<le> INT_MAX_STR_DIGITS) (tokens p)"
    by (simp add: within_limit_def)
  from ints_of_digits [OF wf(1) this]
  have ids: "ints_of (findall False COMMIT_ISSUES_REGEX (reflist_text p))
      = Inr (map digits_value (tokens p))"
    unfolding findall_tokens [OF wf(1)] .
  have ne: "ustr ''fixes'' \<noteq> ustr ''refs''" by simp
  from wf(2) ne show ?thesis
    unfolding parse_commit_def Let_def subject_first_line [OF m]
    by (auto simp: caps ids ref_ids_def simp del: ustr_simps)
qed



text \<open>
  The two ways in which a message whose first line the pattern matches raises: an
  action word that is not \<^verbatim>\<open>fixes\<close> or \<^verbatim>\<open>refs\<close> once lower-cased names no attribute of the
  commit, and a token with more digits than \<^verbatim>\<open>int\<close> reads.
\<close>

lemma parse_commit_attribute_error:
  assumes m: "m \<noteq> []"
    and p: "loosely_formed p" "first_line m = render p"
    and a: "lower (action_word p) \<noteq> ustr ''fixes''" "lower (action_word p) \<noteq> ustr ''refs''"
  shows "parse_commit h m = Inl AttributeError"
proof -
  from render_match [OF p]
  obtain caps where caps: "re_match True COMMIT_VALID_SUMMARY_REGEX (first_line m) = Some caps"
    "group caps ''action'' = action_word p"
    by blast
  from a show ?thesis
    unfolding parse_commit_def Let_def subject_first_line [OF m]
    by (simp add: caps del: ustr_simps)
qed


text \<open>
  What the pattern passes on: the action word of a match holds only the letters of
  \<^verbatim>\<open>fixes\<close> and \<^verbatim>\<open>refs\<close> in either case, U+0130, U+0131 and U+017F, which are characters
  that \<open>lower_code\<close> lower-cases as \<^verbatim>\<open>str.lower()\<close> does; and every string that \<^verbatim>\<open>int\<close> is given
  is one or more decimal digits.
\<close>

lemma lit_eq_codes:
  assumes "lit_eq True a c" "a \<in> set ''fixes'' \<union> set ''refs''"
  shows "c \<in> set (ustr ''fixesrFIXESR'') \<union> {0x130, 0x131, 0x17F}"
  using assms by (auto simp: lit_eq_def re_fold_def split: if_splits)

lemma matched_action_codes:
  assumes "re_match True COMMIT_VALID_SUMMARY_REGEX l = Some caps"
  shows "set (group caps ''action'') \<subseteq> set (ustr ''fixesrFIXESR'') \<union> {0x130, 0x131, 0x17F}"
proof -
  from assms obtain p' s' where
    "(p', s', caps) \<in> set (rx_match True COMMIT_VALID_SUMMARY_REGEX (0, l, []))"
    by (auto simp: re_match_def split: list.splits)
  from summary_sound [OF this] obtain w where
    w: "w \<in> lang True action_rx" "map_of caps ''action'' = Some w"
    by blast
  have "c \<in> set (ustr ''fixesrFIXESR'') \<union> {0x130, 0x131, 0x17F}" if "c \<in> set w" for c
  proof -
    from w(1) that obtain a where "a \<in> set ''fixes'' \<union> set ''refs''" "lit_eq True a c"
      unfolding lang_action by (blast dest: list_all2_pick)
    then show ?thesis by (intro lit_eq_codes)
  qed
  with w(2) show ?thesis
    by (auto simp: group_def simp del: ustr_simps)
qed

lemma matched_tokens_digits:
  assumes "re_match True COMMIT_VALID_SUMMARY_REGEX l = Some caps"
  shows "list_all digits (findall False COMMIT_ISSUES_REGEX (group caps ''issues''))"
proof -
  from assms obtain p' s' where
    "(p', s', caps) \<in> set (rx_match True COMMIT_VALID_SUMMARY_REGEX (0, l, []))"
    by (auto simp: re_match_def split: list.splits)
  from summary_sound [OF this] obtain x where
    x: "x \<in> lang True issues_rx" "map_of caps ''issues'' = Some x"
    by blast
  from x(1) obtain d ms where d: "digits d" "list_all (\<lambda>m. digits (snd m)) ms"
    "x = [0x23] @ d @ concat (map more_text ms)"
    unfolding lang_issues by blast
  from findall_reflist [OF d(1,2)] d x(2) show ?thesis
    by (simp add: group_def list_all_iff)
qed





subsection \<open>An issue of another project\<close>

lemma fixes_55_line_parse:
  assumes "first_line m = render (fixes_55_line sp d)"
  shows "parse_commit h m = Inr \<lparr>sha = h, message = m, fixes = {55}, refs = {}\<rparr>"
proof -
  have ne: "m \<noteq> []"
  proof
    assume "m = []"
    with assms show False by (simp add: first_line_def render_def fixes_55_line_def)
  qed
  have dec: "is_decimal 0x35"
    by (simp add: is_decimal_def decimal_value_def decimal_zeros_def)
  have wf: "well_formed (fixes_55_line sp d)"
    by (simp add: well_formed_def fixes_55_line_def tokens_def digits_def dec lower_def
        lower_code_def spaced_def)
  have wl: "within_limit (fixes_55_line sp d)"
    by (simp add: within_limit_def tokens_def fixes_55_line_def INT_MAX_STR_DIGITS_def)
  have ids: "ref_ids (fixes_55_line sp d) = {55}"
    by (simp add: ref_ids_def tokens_def fixes_55_line_def digits_value_def decimal_value_def
        decimal_zeros_def)
  have lw: "lower (action_word (fixes_55_line sp d)) = ustr ''fixes''"
    by (simp add: fixes_55_line_def lower_def lower_code_def)
  from parse_commit_render [OF ne wf wl assms, of h] show ?thesis
    unfolding ids lw by simp
qed

lemma verify_55:
  assumes "project config = Some ''foo''" "''bar'' \<notin> config_refs config"
    and "projects ''foo'' = Some target" "project_identifier target = ''foo''"
    and "issues 55 = Some issue" "project_identifier (issue_project issue) = ''bar''"
  shows "spec_verify_issues projects issues config {55} =
     Inr \<lparr>valid_issues = [], invalid_project_issues = [issue], missing_issue_ids = [],
          validation_project = target\<rparr>"
  using assms by (simp add: spec_verify_issues_def List.map_filter_simps)

lemma report_invalid_project:
  "report \<lparr>valid_issues = [], invalid_project_issues = [issue], missing_issue_ids = [],
           validation_project = target\<rparr> [] cr
   = (''failure'', \<lparr>output_title = ''Invalid project'',
        output_summary = ''* '' @ issue_link issue,
        output_text = Some (format_details [issue] target)\<rparr>)"
  by (simp add: report_def summary_of_def format_invalid_commit_messages_def
      format_redmine_issues_def summarize_def format_details_def Let_def)

lemma loop_invalid_project:
  assumes cfg: "CONFIG (pr_base_repo_full_name pr) = Some config"
    and items: "getitem B (pr_commits_url pr) (fst s0) = (Inr [item], w1)"
    and msg: "first_line (item_message item) = render (fixes_55_line sp d)"
    and verify: "verify_issues B config {55} w1 = (Inr iv, w2)"
  shows "attempt_loop B CONFIG pr 3 [1..<3 + 1] s0 =
     (Inr (Some (iv, [])),
      (w2, snd s0 @ [ApiGetitem (pr_commits_url pr), VerifyIssues config {55}]))"
proof -
  have xs: "[1..<3 + 1] = [1, 2, 3::nat]" by (simp add: upt_rec)
  have gc: "get_commits_from_pull_request B pr s0 =
      (Inr [\<lparr>sha = item_sha item, message = item_message item, fixes = {55}, refs = {}\<rparr>],
       (w1, snd s0 @ [ApiGetitem (pr_commits_url pr)]))"
    by (simp add: get_commits_from_pull_request_def call_def items
        fixes_55_line_parse [OF msg])
  have gi: "get_issues_from_pr B CONFIG pr s0 =
     (Inr (iv, []), (w2, snd s0 @ [ApiGetitem (pr_commits_url pr), VerifyIssues config {55}]))"
    by (simp add: get_issues_from_pr_def get_config_def cfg gc call_def verify)
  show ?thesis unfolding xs by (simp add: gi)
qed

text \<open>
  C4, as the program has it. The pull request has one commit, and the first line of
  its message is \<^verbatim>\<open>fixes #55\<close>, then \<^verbatim>\<open>:\<close> or \<^verbatim>\<open> -\<close>, then a space and a description. Issue
  55 exists in the tracker in project \<^verbatim>\<open>bar\<close>, the project of the policy is \<^verbatim>\<open>foo\<close>, and
  \<^verbatim>\<open>bar\<close> is not among the extra accepted projects. Then the final patch concludes
  \<^verbatim>\<open>failure\<close>, its title is \<^verbatim>\<open>Invalid project\<close>, its summary is the one line of issue 55, and
  its text is the remediation for that issue: check that it is the intended issue, move
  it from its project to the project of the policy, or file a new ticket there. The
  verifier is the one of section 4.3 of the specification.
\<close>

theorem invalid_project_reported:
  assumes ip: "set_check_in_progress B pr cr0 s = (Inr cr, s0)"
    and cfg: "CONFIG (pr_base_repo_full_name pr) = Some config"
    and policy: "project config = Some ''foo''" "''bar'' \<notin> config_refs config"
    and items: "getitem B (pr_commits_url pr) (fst s0) = (Inr [item], w1)"
    and msg: "first_line (item_message item) = render (fixes_55_line sp d)"
    and verify: "verify_issues B config {55} w1 = (spec_verify_issues projects issues config {55}, w2)"
    and target: "projects ''foo'' = Some target" "project_identifier target = ''foo''"
    and issue: "issues 55 = Some issue" "issue_id issue = 55"
      "project_identifier (issue_project issue) = ''bar''"
  shows "final_report (snd (snd (run_pull_request_check B CONFIG USERS ST pr cr0 s)))
         = Some (''failure'',
                 \<lparr>output_title = ''Invalid project'',
                  output_summary = ''* [#55: '' @ issue_subject issue @ '']('' @ issue_url issue @ '')'',
                  output_text =
                    Some (''### [#55: '' @ issue_subject issue @ '']('' @ issue_url issue @ '')'' @ NL @ NL
                     @ ''* check [#55]('' @ issue_url issue @ '') is the intended issue'' @ NL
                     @ ''* move [ticket #55]('' @ issue_url issue @ '') from ''
                     @ project_name (issue_project issue) @ '' to the ''
                     @ project_name target @ '' project'' @ NL
                     @ ''* or file a new ticket in the ['' @ project_name target
                     @ '' project]('' @ project_url target @ ''/issues/new)'' @ NL)\<rparr>)"
proof -
  let ?iv = "\<lparr>valid_issues = [], invalid_project_issues = [issue], missing_issue_ids = [],
          validation_project = target\<rparr>"
  from verify have v: "verify_issues B config {55} w1 = (Inr ?iv, w2)"
    unfolding verify_55 [where projects = projects and issues = issues and config = config
        and target = target and issue = issue, OF policy target issue(1) issue(3)] .
  note lp = loop_invalid_project [where CONFIG = CONFIG and pr = pr, OF cfg items msg v]
  from run_trace [OF ip lp, of USERS ST] obtain mid at where
    "snd (snd (run_pull_request_check B CONFIG USERS ST pr cr0 s))
      = (snd s0 @ mid) @ [ApiPatch (cr_url cr) (Completed (pr_head_ref pr) (pr_head_sha pr) at
          (fst (loop_report (Inr (Some (?iv, []))) cr)) (snd (loop_report (Inr (Some (?iv, []))) cr)))]"
    by auto
  then have "final_report (snd (snd (run_pull_request_check B CONFIG USERS ST pr cr0 s)))
     = Some (loop_report (Inr (Some (?iv, []))) cr)"
    by (simp add: final_report_append final_report_single)
  moreover have "loop_report (Inr (Some (?iv, []))) cr = report ?iv [] cr"
    by (simp add: loop_report_def)
  moreover have "str_int 55 = ''55''" by code_simp
  then have "issue_link issue = ''[#55: '' @ issue_subject issue @ '']('' @ issue_url issue @ '')''"
    by (simp add: issue_link_def issue(2))
  moreover have "format_details [issue] target =
      ''### [#55: '' @ issue_subject issue @ '']('' @ issue_url issue @ '')'' @ NL @ NL
        @ ''* check [#55]('' @ issue_url issue @ '') is the intended issue'' @ NL
        @ ''* move [ticket #55]('' @ issue_url issue @ '') from ''
        @ project_name (issue_project issue) @ '' to the ''
        @ project_name target @ '' project'' @ NL
        @ ''* or file a new ticket in the ['' @ project_name target
        @ '' project]('' @ project_url target @ ''/issues/new)'' @ NL"
    by (simp add: format_details_def issue_link_def issue(2) \<open>str_int 55 = ''55''\<close>)
  ultimately show ?thesis
    by (simp add: report_invalid_project)
qed

theorem invalid_project_reported_witness:
  "final_report (snd (snd (run_pull_request_check world_invalid_project example_CONFIG Map.empty
       example_Status example_pr None (0, []))))
   = Some (''failure'',
           \<lparr>output_title = ''Invalid project'',
            output_summary = ''* [#55: Crash](r/issues/55)'',
            output_text =
              Some (''### [#55: Crash](r/issues/55)'' @ NL @ NL
                    @ ''* check [#55](r/issues/55) is the intended issue'' @ NL
                    @ ''* move [ticket #55](r/issues/55) from Bar to the Foo project'' @ NL
                    @ ''* or file a new ticket in the [Foo project](r/projects/foo/issues/new)''
                    @ NL)\<rparr>)"
proof -
  have ip: "set_check_in_progress world_invalid_project example_pr None (0, [])
      = (Inr example_check_run, state_in_progress)"
    by code_simp
  have cfg: "example_CONFIG (pr_base_repo_full_name example_pr)
      = Some \<lparr>project = Some ''foo'', required = True, config_refs = {}, version_prefix = None\<rparr>"
    by (simp add: example_CONFIG_def example_pr_def)
  have items: "getitem world_invalid_project (pr_commits_url example_pr) (fst state_in_progress)
      = (Inr [\<lparr>item_sha = ''abc'', item_message = ustr ''fixes #55: fix crash''\<rparr>], 1)"
    by (simp add: world_invalid_project_def example_world_def state_in_progress_def)
  have msg: "first_line (item_message \<lparr>item_sha = ''abc'', item_message = ustr ''fixes #55: fix crash''\<rparr>)
      = render (fixes_55_line Colon (ustr ''fix crash''))"
    by code_simp
  have verify: "verify_issues world_invalid_project
       \<lparr>project = Some ''foo'', required = True, config_refs = {}, version_prefix = None\<rparr> {55} 1
     = (spec_verify_issues example_projects example_issues
         \<lparr>project = Some ''foo'', required = True, config_refs = {}, version_prefix = None\<rparr> {55}, 1)"
    by (simp add: world_invalid_project_def example_world_def)
  have policy: "project \<lparr>project = Some ''foo'', required = True, config_refs = {},
        version_prefix = None\<rparr> = Some ''foo''"
    "''bar'' \<notin> config_refs \<lparr>project = Some ''foo'', required = True, config_refs = {},
        version_prefix = None\<rparr>"
    by simp_all
  have target: "example_projects ''foo'' = Some project_foo" "project_identifier project_foo = ''foo''"
    by (simp_all add: example_projects_def project_foo_def)
  have issue: "example_issues 55 = Some issue_55" "issue_id issue_55 = 55"
    "project_identifier (issue_project issue_55) = ''bar''"
    by (simp_all add: example_issues_def issue_55_def project_bar_def)
  from invalid_project_reported [where B = world_invalid_project and CONFIG = example_CONFIG
      and projects = example_projects and issues = example_issues and target = project_foo
      and issue = issue_55 and USERS = Map.empty and ST = example_Status,
      OF ip cfg policy items msg verify target issue]
  show ?thesis
    by (simp add: issue_55_def project_bar_def project_foo_def)
qed

text \<open>
  The claim C4 as stated fails: the message \<^verbatim>\<open>fixes #55\<close> has no separator, so the commit
  refers to no issue. With a policy that requires a reference the report is
  \<^verbatim>\<open>Invalid commits\<close>, with no text, and issue 55 is under no finding; with a policy that
  does not, the conclusion is \<^verbatim>\<open>success\<close>.
\<close>

theorem invalid_project_counterexample:
  "example_issues 55 = Some issue_55
   \<and> project_identifier (issue_project issue_55) = ''bar''
   \<and> parse_commit ''abc'' (ustr ''fixes #55'')
       = Inr \<lparr>sha = ''abc'', message = ustr ''fixes #55'', fixes = {}, refs = {}\<rparr>
   \<and> final_report (snd (snd (run_pull_request_check world_bare_55 example_CONFIG Map.empty
         example_Status example_pr None (0, []))))
     = Some (''failure'',
             \<lparr>output_title = ''Invalid commits'',
              output_summary = ''* abc must be in the format `fixes #redmine - brief description`'',
              output_text = None\<rparr>)
   \<and> final_report (snd (snd (run_pull_request_check world_bare_55 example_CONFIG_optional Map.empty
         example_Status example_pr None (0, []))))
     = Some (''success'',
             \<lparr>output_title = ''Redmine Issue Report'', output_summary = [], output_text = None\<rparr>)"
  by code_simp

end
